theory Spec2Isabelle
  imports Main "HOL-Library.Multiset"
begin

section \<open>Data model of \<^verbatim>\<open>go/main.go\<close>\<close>

text \<open>
  The structs of the program are records with the fields of the source. A Go \<^verbatim>\<open>string\<close>
  is a byte sequence, here a \<^typ>\<open>string\<close> (a list of 8-bit characters). \<^verbatim>\<open>time.Time\<close>
  is represented by its Unix seconds, the only view of it that the program takes
  (\<^verbatim>\<open>Timestamp.Unix()\<close>); the timestamps are only compared, never added, so they are
  integers. Field names that occur in several structs are written qualified
  (\<open>Isu.ID\<close>, \<open>IsuCondition.ID\<close>, \<open>TrendCondition.ID\<close>).
\<close>

record Isu =
  ID :: int
  JIAIsuUUID :: string
  Name :: string
  Image :: string
  Character :: string
  JIAUserID :: string

record IsuCondition =
  ID :: int
  JIAIsuUUID :: string
  Timestamp :: int
  IsSitting :: bool
  Condition :: string
  Message :: string
  Level :: string

record TrendCondition =
  ID :: int
  Timestamp :: int

record TrendResponse =
  Character :: string
  Info :: "TrendCondition list"
  Warning :: "TrendCondition list"
  Critical :: "TrendCondition list"

definition conditionLevelInfo :: string where
  "conditionLevelInfo = ''info''"

definition conditionLevelWarning :: string where
  "conditionLevelWarning = ''warning''"

definition conditionLevelCritical :: string where
  "conditionLevelCritical = ''critical''"

subsection \<open>Errors\<close>

text \<open>
  Go error values. \<open>ErrNoRows\<close> is the sentinel \<^verbatim>\<open>sql.ErrNoRows\<close>; \<open>ErrOther m\<close> is an error
  with message \<open>m\<close> and no \<^verbatim>\<open>Unwrap\<close> method (a driver error, \<^verbatim>\<open>errors.New\<close>, or
  \<^verbatim>\<open>fmt.Errorf\<close> with the verb \<^verbatim>\<open>%v\<close>); \<open>ErrWrap m e\<close> is an error with message \<open>m\<close> whose
  \<^verbatim>\<open>Unwrap\<close> returns \<open>e\<close>.
\<close>

datatype error = ErrNoRows | ErrOther string | ErrWrap string error

text \<open>\<^verbatim>\<open>err.Error()\<close>, the text that the verb \<^verbatim>\<open>%v\<close> prints.\<close>

fun Error :: "error \<Rightarrow> string" where
  "Error ErrNoRows = ''sql: no rows in result set''"
| "Error (ErrOther m) = m"
| "Error (ErrWrap m e) = m"

text \<open>\<^verbatim>\<open>errors.Is(err, sql.ErrNoRows)\<close>: the sentinel is looked for along the \<^verbatim>\<open>Unwrap\<close> chain.\<close>

fun errors_Is_ErrNoRows :: "error \<Rightarrow> bool" where
  "errors_Is_ErrNoRows ErrNoRows = True"
| "errors_Is_ErrNoRows (ErrOther m) = False"
| "errors_Is_ErrNoRows (ErrWrap m e) = errors_Is_ErrNoRows e"

text \<open>\<^verbatim>\<open>fmt.Errorf("db error: %v", err)\<close>: a new error that carries the text only.\<close>

definition Errorf_db_error :: "error \<Rightarrow> error" where
  "Errorf_db_error err = ErrOther (''db error: '' @ Error err)"

subsection \<open>The persistent store\<close>

text \<open>
  The database is outside the program. One value of \<open>DB\<close> gives the answer of the store
  to each query the program sends, at one moment:
  \<^item> \<open>getIsuCondition\<close>: \<^verbatim>\<open>db.Get\<close> of the latest \<^verbatim>\<open>isu_condition\<close> row of a device;
  \<^item> \<open>getIsu\<close>: \<^verbatim>\<open>db.Get\<close> of the \<^verbatim>\<open>isu\<close> row of a device;
  \<^item> \<open>getUser\<close>: \<^verbatim>\<open>db.Get(&count, "SELECT 1 FROM user WHERE jia_user_id = ?")\<close>;
  \<^item> \<open>selectCharacters\<close>: \<^verbatim>\<open>db.Select\<close> of the distinct characters;
  \<^item> \<open>selectIsuByCharacter\<close>: \<^verbatim>\<open>db.Select\<close> of the devices of a character;
  \<^item> \<open>namedExecInsert\<close>: the error of the batched \<^verbatim>\<open>db.NamedExec\<close> insert, if any.
  \<^verbatim>\<open>db.Get\<close> reports an empty result set as the error \<^verbatim>\<open>sql.ErrNoRows\<close>.
\<close>

record DB =
  getIsuCondition :: "string \<Rightarrow> error + IsuCondition"
  getIsu :: "string \<Rightarrow> error + Isu"
  getUser :: "string \<Rightarrow> error + int"
  selectCharacters :: "error + Isu list"
  selectIsuByCharacter :: "string \<Rightarrow> error + Isu list"
  namedExecInsert :: "IsuCondition list \<Rightarrow> error option"

subsection \<open>The process-wide state\<close>

text \<open>
  What the program does besides changing its own variables is recorded in a trace, in
  the order in which it happens: every query sent to the store, every invalidation of
  a cache entry and every line written to the log.
\<close>

datatype event =
    StoreGetIsuCondition string
  | StoreGetIsu string
  | StoreGetUser string
  | StoreSelectCharacters
  | StoreSelectIsuByCharacter string
  | StoreInsert "IsuCondition list"
  | ForgetIsuCondition string
  | ForgetIsu string
  | LogLine string

text \<open>
  The global variables \<^verbatim>\<open>isuCache\<close>, \<^verbatim>\<open>userCache\<close>, \<^verbatim>\<open>isuConditionCache\<close>, \<^verbatim>\<open>trendCache\<close>
  and \<^verbatim>\<open>insertQueue\<close>. A Go map is a partial function; a slice that may be \<^verbatim>\<open>nil\<close> is an
  optional list (\<open>None\<close> is \<^verbatim>\<open>nil\<close>, which \<^verbatim>\<open>calculateTrend\<close> returns on failure and which
  differs from the empty slice \<open>Some []\<close>). Each operation below is one critical section
  of the source (it holds the lock of its object from the first to the last statement),
  so it is a function from state to state.
\<close>

record world =
  isuCache :: "string \<rightharpoonup> Isu"
  userCache :: "string \<rightharpoonup> unit"
  isuConditionCache :: "string \<rightharpoonup> IsuCondition"
  trendCache :: "TrendResponse list option"
  insertQueue :: "IsuCondition list"
  trace :: "event list"

definition emit :: "event \<Rightarrow> world \<Rightarrow> world" where
  "emit ev w = w\<lparr>trace := trace w @ [ev]\<rparr>"

section \<open>The write buffer\<close>

definition NewQueue :: "IsuCondition list" where
  "NewQueue = []"

definition Insert :: "IsuCondition list \<Rightarrow> world \<Rightarrow> world" where
  "Insert conds w = w\<lparr>insertQueue := insertQueue w @ conds\<rparr>"

definition PopAll :: "world \<Rightarrow> IsuCondition list \<times> world" where
  "PopAll w = (let queue = insertQueue w in (queue, w\<lparr>insertQueue := NewQueue\<rparr>))"

section \<open>The severity classifier\<close>

subsection \<open>String primitives of Go\<close>

text \<open>
  Indexing a string beyond its end and slicing it from beyond its end are run-time
  panics in Go, so both return a sum.
\<close>

datatype panic = IndexOutOfRange | SliceBoundsOutOfRange

text \<open>\<^verbatim>\<open>s[i:]\<close>\<close>

definition slice_from :: "string \<Rightarrow> nat \<Rightarrow> panic + string" where
  "slice_from s i = (if i \<le> length s then Inr (drop i s) else Inl SliceBoundsOutOfRange)"

text \<open>\<^verbatim>\<open>s[i]\<close>\<close>

definition index_at :: "string \<Rightarrow> nat \<Rightarrow> panic + char" where
  "index_at s i = (if i < length s then Inr (s ! i) else Inl IndexOutOfRange)"

text \<open>
  \<^verbatim>\<open>strings.HasPrefix\<close> of the standard library:
  \<^verbatim>\<open>len(s) >= len(prefix) && s[:len(prefix)] == prefix\<close>.
\<close>

definition HasPrefix :: "string \<Rightarrow> string \<Rightarrow> bool" where
  "HasPrefix s pre = (length pre \<le> length s \<and> take (length pre) s = pre)"

text \<open>
  \<^verbatim>\<open>strings.Count\<close> of the standard library, for a non-empty \<open>substr\<close> (the program calls it
  with \<^verbatim>\<open>"=true"\<close> only): the number of non-overlapping instances of \<open>substr\<close> in \<open>s\<close>,
  found from the left; after an instance the search goes on behind it.
\<close>

function strings_Count :: "string \<Rightarrow> string \<Rightarrow> nat" where
  "strings_Count s substr =
     (if s = [] \<or> substr = [] then 0
      else if HasPrefix s substr then Suc (strings_Count (drop (length substr) s) substr)
      else strings_Count (tl s) substr)"
  by pat_completeness auto
termination
  by (relation "measure (\<lambda>(s, substr). length s)") auto

subsection \<open>\<^verbatim>\<open>isValidConditionFormat\<close>\<close>

definition keys :: "string list" where
  "keys = [''is_dirty='', ''is_overweight='', ''is_broken='']"

definition valueTrue :: string where
  "valueTrue = ''true''"

definition valueFalse :: string where
  "valueFalse = ''false''"

text \<open>
  The \<^verbatim>\<open>if ... else if ... else\<close> on the value (lines 1617 to 1623): the index behind the
  value, or \<open>None\<close> where the source returns \<^verbatim>\<open>false\<close>.
\<close>

definition skipValue :: "string \<Rightarrow> nat \<Rightarrow> panic + nat option" where
  "skipValue conditionStr idxCondStr =
     (case slice_from conditionStr idxCondStr of
        Inl p \<Rightarrow> Inl p
      | Inr s \<Rightarrow>
          if HasPrefix s valueTrue then Inr (Some (idxCondStr + length valueTrue))
          else (case slice_from conditionStr idxCondStr of
                  Inl p \<Rightarrow> Inl p
                | Inr s' \<Rightarrow>
                    if HasPrefix s' valueFalse then Inr (Some (idxCondStr + length valueFalse))
                    else Inr None))"

text \<open>
  The \<^verbatim>\<open>for idxKeys, key := range keys\<close> loop, with the keys still to come, and the
  \<^verbatim>\<open>return\<close> behind it.
\<close>

fun isValidConditionFormat_loop :: "string \<Rightarrow> nat \<Rightarrow> string list \<Rightarrow> nat \<Rightarrow> panic + bool" where
  "isValidConditionFormat_loop conditionStr idxKeys [] idxCondStr =
     Inr (idxCondStr = length conditionStr)"
| "isValidConditionFormat_loop conditionStr idxKeys (key # rest) idxCondStr =
     (case slice_from conditionStr idxCondStr of
        Inl p \<Rightarrow> Inl p
      | Inr s \<Rightarrow>
          if \<not> HasPrefix s key then Inr False
          else
            (case skipValue conditionStr (idxCondStr + length key) of
               Inl p \<Rightarrow> Inl p
             | Inr None \<Rightarrow> Inr False
             | Inr (Some idxCondStr') \<Rightarrow>
                 if idxKeys < length keys - 1 then
                   (case index_at conditionStr idxCondStr' of
                      Inl p \<Rightarrow> Inl p
                    | Inr c \<Rightarrow>
                        if c \<noteq> CHR '','' then Inr False
                        else isValidConditionFormat_loop conditionStr (Suc idxKeys) rest
                               (Suc idxCondStr'))
                 else isValidConditionFormat_loop conditionStr (Suc idxKeys) rest idxCondStr'))"

definition isValidConditionFormat :: "string \<Rightarrow> panic + bool" where
  "isValidConditionFormat conditionStr = isValidConditionFormat_loop conditionStr 0 keys 0"

subsection \<open>\<^verbatim>\<open>calculateConditionLevel\<close>\<close>

definition calculateConditionLevel :: "string \<Rightarrow> error + string" where
  "calculateConditionLevel condition =
     (let warnCount = strings_Count condition ''=true'' in
      if warnCount = 0 then Inr conditionLevelInfo
      else if warnCount = 1 \<or> warnCount = 2 then Inr conditionLevelWarning
      else if warnCount = 3 then Inr conditionLevelCritical
      else Inl (ErrOther ''unexpected warn count''))"

subsection \<open>The grammar of the specification\<close>

text \<open>
  The encoding as the specification words it: the three fixed keys in their order, each
  assigned \<^verbatim>\<open>true\<close> or \<^verbatim>\<open>false\<close>, separated by commas, and nothing else.
\<close>

definition boolWord :: "bool \<Rightarrow> string" where
  "boolWord b = (if b then ''true'' else ''false'')"

definition conditionString :: "bool \<Rightarrow> bool \<Rightarrow> bool \<Rightarrow> string" where
  "conditionString dirty overweight broken =
     ''is_dirty='' @ boolWord dirty @ '',is_overweight='' @ boolWord overweight
       @ '',is_broken='' @ boolWord broken"

text \<open>The level that the specification gives to a number of true assignments.\<close>

definition levelOfTrueCount :: "nat \<Rightarrow> string option" where
  "levelOfTrueCount n =
     (if n = 0 then Some ''info''
      else if n = 1 \<or> n = 2 then Some ''warning''
      else if n = 3 then Some ''critical''
      else None)"

definition trueCount :: "bool \<Rightarrow> bool \<Rightarrow> bool \<Rightarrow> nat" where
  "trueCount dirty overweight broken = length (filter id [dirty, overweight, broken])"

section \<open>The read-through caches\<close>

text \<open>
  \<open>Get\<close> looks the key up in the map; on a miss it sends one query to the store (recorded
  in the trace). Go returns a pair of a pointer and an error of which exactly one is
  \<^verbatim>\<open>nil\<close>; that is a sum.
\<close>

definition IsuConditionCache_Get ::
  "DB \<Rightarrow> string \<Rightarrow> world \<Rightarrow> (error + IsuCondition) \<times> world" where
  "IsuConditionCache_Get db jiaIsuUUID w =
     (case isuConditionCache w jiaIsuUUID of
        None \<Rightarrow>
          (let w1 = emit (StoreGetIsuCondition jiaIsuUUID) w in
           case getIsuCondition db jiaIsuUUID of
             Inl err \<Rightarrow>
               if errors_Is_ErrNoRows err then (Inl ErrNoRows, w1) else (Inl err, w1)
           | Inr i \<Rightarrow>
               (Inr i, w1\<lparr>isuConditionCache := (isuConditionCache w1)(jiaIsuUUID \<mapsto> i)\<rparr>))
      | Some cond \<Rightarrow> (Inr cond, w))"

definition IsuConditionCache_Forget :: "string \<Rightarrow> world \<Rightarrow> world" where
  "IsuConditionCache_Forget jiaIsuUUID w =
     emit (ForgetIsuCondition jiaIsuUUID)
       (w\<lparr>isuConditionCache := (isuConditionCache w)(jiaIsuUUID := None)\<rparr>)"

definition IsuCache_Get :: "DB \<Rightarrow> string \<Rightarrow> world \<Rightarrow> (error + Isu) \<times> world" where
  "IsuCache_Get db jiaIsuUUID w =
     (case isuCache w jiaIsuUUID of
        None \<Rightarrow>
          (let w1 = emit (StoreGetIsu jiaIsuUUID) w in
           case getIsu db jiaIsuUUID of
             Inl err \<Rightarrow>
               if errors_Is_ErrNoRows err then (Inl ErrNoRows, w1) else (Inl err, w1)
           | Inr i \<Rightarrow> (Inr i, w1\<lparr>isuCache := (isuCache w1)(jiaIsuUUID \<mapsto> i)\<rparr>))
      | Some isu \<Rightarrow> (Inr isu, w))"

definition IsuCache_Forget :: "string \<Rightarrow> world \<Rightarrow> world" where
  "IsuCache_Forget jiaIsuUUID w =
     emit (ForgetIsu jiaIsuUUID) (w\<lparr>isuCache := (isuCache w)(jiaIsuUUID := None)\<rparr>)"

text \<open>
  \<^verbatim>\<open>UserCache.Get\<close> returns a boolean and an error. Every error of \<^verbatim>\<open>db.Get\<close> leaves through
  the first \<^verbatim>\<open>if\<close> (line 261), rewritten by \<^verbatim>\<open>fmt.Errorf("db error: %v", err)\<close>; the test
  \<^verbatim>\<open>count == 0\<close> comes after it.
\<close>

definition UserCache_Get :: "DB \<Rightarrow> string \<Rightarrow> world \<Rightarrow> (bool \<times> error option) \<times> world" where
  "UserCache_Get db jiaUserID w =
     (case userCache w jiaUserID of
        None \<Rightarrow>
          (let w1 = emit (StoreGetUser jiaUserID) w in
           case getUser db jiaUserID of
             Inl err \<Rightarrow> ((False, Some (Errorf_db_error err)), w1)
           | Inr count' \<Rightarrow>
               if count' = 0 then ((False, Some ErrNoRows), w1)
               else ((True, None), w1\<lparr>userCache := (userCache w1)(jiaUserID \<mapsto> ())\<rparr>))
      | Some u \<Rightarrow> ((True, None), w))"

text \<open>
  Sequences of calls on one cache, each \<open>Get\<close> with the store as it is at that moment.
  The run returns the key and the result of every \<open>Get\<close>, in order.
\<close>

datatype cache_op = OpGet DB string | OpForget string

fun IsuConditionCache_run ::
  "cache_op list \<Rightarrow> world \<Rightarrow> (string \<times> (error + IsuCondition)) list \<times> world" where
  "IsuConditionCache_run [] w = ([], w)"
| "IsuConditionCache_run (OpGet db k # ops) w =
     (case IsuConditionCache_Get db k w of
        (r, w1) \<Rightarrow>
          (case IsuConditionCache_run ops w1 of (rs, w2) \<Rightarrow> ((k, r) # rs, w2)))"
| "IsuConditionCache_run (OpForget k # ops) w =
     IsuConditionCache_run ops (IsuConditionCache_Forget k w)"

fun IsuCache_run :: "cache_op list \<Rightarrow> world \<Rightarrow> (string \<times> (error + Isu)) list \<times> world" where
  "IsuCache_run [] w = ([], w)"
| "IsuCache_run (OpGet db k # ops) w =
     (case IsuCache_Get db k w of
        (r, w1) \<Rightarrow> (case IsuCache_run ops w1 of (rs, w2) \<Rightarrow> ((k, r) # rs, w2)))"
| "IsuCache_run (OpForget k # ops) w = IsuCache_run ops (IsuCache_Forget k w)"

section \<open>The flush cycle\<close>

text \<open>
  One round of the \<^verbatim>\<open>for\<close> loop of \<^verbatim>\<open>insertIsuConditionScheduled\<close>, which runs at every tick
  of its timer and never returns.
\<close>

definition insertIsuConditionScheduled_tick :: "DB \<Rightarrow> world \<Rightarrow> world" where
  "insertIsuConditionScheduled_tick db w =
     (case PopAll w of
        (q, w1) \<Rightarrow>
          if length q = 0 then w1
          else
            (let w2 = fold (\<lambda>cond. IsuConditionCache_Forget (IsuCondition.JIAIsuUUID cond)) q w1;
                 w3 = emit (StoreInsert q) w2
             in case namedExecInsert db q of
                  Some err \<Rightarrow>
                    emit (LogLine (''failed to insert isu condition: '' @ Error err)) w3
                | None \<Rightarrow> w3))"

section \<open>The trend snapshot\<close>

definition NewTrendCache :: "TrendResponse list option" where
  "NewTrendCache = Some []"

definition TrendCache_Get :: "world \<Rightarrow> TrendResponse list option" where
  "TrendCache_Get w = trendCache w"

definition TrendCache_Set :: "TrendResponse list option \<Rightarrow> world \<Rightarrow> world" where
  "TrendCache_Set res w = w\<lparr>trendCache := res\<rparr>"

text \<open>The comparison given to \<^verbatim>\<open>sort.Slice\<close>: the earlier element has the later timestamp.\<close>

definition byTimestampDesc :: "TrendCondition \<Rightarrow> TrendCondition \<Rightarrow> bool" where
  "byTimestampDesc a b = (TrendCondition.Timestamp a > TrendCondition.Timestamp b)"

text \<open>
  \<^verbatim>\<open>sort.Slice\<close> belongs to the standard library; the program is modelled over any
  function \<open>sortSlice\<close> in its place. What its documentation promises for this comparison
  is that the result is a rearrangement of the slice in which no element is followed by
  one that the comparison puts before it; the order of elements with equal timestamps is
  not promised.
\<close>

type_synonym sort_Slice =
  "(TrendCondition \<Rightarrow> TrendCondition \<Rightarrow> bool) \<Rightarrow> TrendCondition list \<Rightarrow> TrendCondition list"

definition sort_Slice_sorts :: "sort_Slice \<Rightarrow> bool" where
  "sort_Slice_sorts sortSlice =
     (\<forall>xs. mset (sortSlice byTimestampDesc xs) = mset xs
          \<and> sorted_wrt (\<lambda>a b. \<not> byTimestampDesc b a) (sortSlice byTimestampDesc xs))"

text \<open>An instance: sorting by insertion, as \<^verbatim>\<open>sort.Slice\<close> does on short slices.\<close>

fun insertLess :: "('a \<Rightarrow> 'a \<Rightarrow> bool) \<Rightarrow> 'a \<Rightarrow> 'a list \<Rightarrow> 'a list" where
  "insertLess lessFn x [] = [x]"
| "insertLess lessFn x (y # ys) =
     (if lessFn x y then x # y # ys else y # insertLess lessFn x ys)"

definition insertionSort :: "('a \<Rightarrow> 'a \<Rightarrow> bool) \<Rightarrow> 'a list \<Rightarrow> 'a list" where
  "insertionSort lessFn xs = fold (insertLess lessFn) xs []"

text \<open>
  The loop \<^verbatim>\<open>for _, isu := range isuList\<close> with the three slices of the character. \<open>None\<close>
  is the \<^verbatim>\<open>return nil\<close> of line 1456.
\<close>

type_synonym buckets = "TrendCondition list \<times> TrendCondition list \<times> TrendCondition list"

fun calculateTrend_isuList :: "DB \<Rightarrow> Isu list \<Rightarrow> buckets \<Rightarrow> world \<Rightarrow> buckets option \<times> world" where
  "calculateTrend_isuList db [] bs w = (Some bs, w)"
| "calculateTrend_isuList db (isu # rest) (info, warning, critical) w =
     (case IsuConditionCache_Get db (Isu.JIAIsuUUID isu) w of
        (Inl err, w1) \<Rightarrow>
          if errors_Is_ErrNoRows err then calculateTrend_isuList db rest (info, warning, critical) w1
          else (None, emit (LogLine (''db error: '' @ Error err)) w1)
      | (Inr cond, w1) \<Rightarrow>
          (let conditionLevel = IsuCondition.Level cond;
               trendCondition = \<lparr>TrendCondition.ID = Isu.ID isu,
                                 TrendCondition.Timestamp = IsuCondition.Timestamp cond\<rparr>
           in if conditionLevel = ''info'' then
                calculateTrend_isuList db rest (info @ [trendCondition], warning, critical) w1
              else if conditionLevel = ''warning'' then
                calculateTrend_isuList db rest (info, warning @ [trendCondition], critical) w1
              else if conditionLevel = ''critical'' then
                calculateTrend_isuList db rest (info, warning, critical @ [trendCondition]) w1
              else calculateTrend_isuList db rest (info, warning, critical) w1))"

text \<open>The loop \<^verbatim>\<open>for _, character := range characterList\<close>.\<close>

fun calculateTrend_characterList ::
  "sort_Slice \<Rightarrow> DB \<Rightarrow> Isu list \<Rightarrow> TrendResponse list \<Rightarrow> world
     \<Rightarrow> TrendResponse list option \<times> world" where
  "calculateTrend_characterList sortSlice db [] res w = (Some res, w)"
| "calculateTrend_characterList sortSlice db (character # rest) res w =
     (let w1 = emit (StoreSelectIsuByCharacter (Isu.Character character)) w in
      case selectIsuByCharacter db (Isu.Character character) of
        Inl err \<Rightarrow> (None, emit (LogLine (''db error: '' @ Error err)) w1)
      | Inr isuList \<Rightarrow>
          (case calculateTrend_isuList db isuList ([], [], []) w1 of
             (None, w2) \<Rightarrow> (None, w2)
           | (Some (info, warning, critical), w2) \<Rightarrow>
               calculateTrend_characterList sortSlice db rest
                 (res @ [\<lparr>TrendResponse.Character = Isu.Character character,
                          Info = sortSlice byTimestampDesc info,
                          Warning = sortSlice byTimestampDesc warning,
                          Critical = sortSlice byTimestampDesc critical\<rparr>])
                 w2))"

definition calculateTrend :: "sort_Slice \<Rightarrow> DB \<Rightarrow> world \<Rightarrow> TrendResponse list option \<times> world" where
  "calculateTrend sortSlice db w =
     (let w1 = emit StoreSelectCharacters w in
      case selectCharacters db of
        Inl err \<Rightarrow> (None, emit (LogLine (''db error: '' @ Error err)) w1)
      | Inr characterList \<Rightarrow> calculateTrend_characterList sortSlice db characterList [] w1)"

text \<open>
  One round of the \<^verbatim>\<open>for\<close> loop of \<^verbatim>\<open>calculateTrendScheduled\<close>: the result of
  \<^verbatim>\<open>calculateTrend\<close> is handed to \<^verbatim>\<open>trendCache.Set\<close> as it is.
\<close>

definition calculateTrendScheduled_tick :: "sort_Slice \<Rightarrow> DB \<Rightarrow> world \<Rightarrow> world" where
  "calculateTrendScheduled_tick sortSlice db w =
     (case calculateTrend sortSlice db w of (trend, w1) \<Rightarrow> TrendCache_Set trend w1)"

section \<open>Notions used to state the properties\<close>

text \<open>What a flush cycle does with a non-empty drained sequence \<open>q\<close>, in order.\<close>

definition flush_events :: "DB \<Rightarrow> IsuCondition list \<Rightarrow> event list" where
  "flush_events db q =
     map (\<lambda>cond. ForgetIsuCondition (IsuCondition.JIAIsuUUID cond)) q @ [StoreInsert q]
       @ (case namedExecInsert db q of
            None \<Rightarrow> []
          | Some err \<Rightarrow> [LogLine (''failed to insert isu condition: '' @ Error err)])"

text \<open>
  Between two states of one recompute the latest-condition cache only gains entries, and
  only for keys whose row the store returns.
\<close>

definition loaded_from :: "DB \<Rightarrow> world \<Rightarrow> world \<Rightarrow> bool" where
  "loaded_from db w w' =
     (\<forall>k. isuConditionCache w' k = isuConditionCache w k
          \<or> (isuConditionCache w k = None \<and> (\<exists>v. getIsuCondition db k = Inr v)))"

text \<open>
  The latest-condition \<open>Get\<close> for a device fails with an error other than not-found: the
  device is not resident and the store answers with such an error.
\<close>

definition Get_fails :: "DB \<Rightarrow> world \<Rightarrow> Isu \<Rightarrow> bool" where
  "Get_fails db w isu =
     (isuConditionCache w (Isu.JIAIsuUUID isu) = None
      \<and> (case getIsuCondition db (Isu.JIAIsuUUID isu) of
            Inl err \<Rightarrow> \<not> errors_Is_ErrNoRows err
          | Inr cond \<Rightarrow> False))"

text \<open>The read of the devices of a character fails, or the \<open>Get\<close> for one of them does.\<close>

definition character_fails :: "DB \<Rightarrow> world \<Rightarrow> Isu \<Rightarrow> bool" where
  "character_fails db w character =
     (case selectIsuByCharacter db (Isu.Character character) of
        Inl err \<Rightarrow> True
      | Inr isuList \<Rightarrow> list_ex (Get_fails db w) isuList)"


definition sortedByTimestampDesc :: "TrendCondition list \<Rightarrow> bool" where
  "sortedByTimestampDesc xs =
     sorted_wrt (\<lambda>a b. TrendCondition.Timestamp a \<ge> TrendCondition.Timestamp b) xs"

definition bucketsSorted :: "TrendResponse \<Rightarrow> bool" where
  "bucketsSorted r =
     (sortedByTimestampDesc (Info r) \<and> sortedByTimestampDesc (Warning r)
      \<and> sortedByTimestampDesc (Critical r))"

text \<open>The three level strings that the \<^verbatim>\<open>switch\<close> of \<^verbatim>\<open>calculateTrend\<close> has a case for.\<close>

definition knownLevel :: "string \<Rightarrow> bool" where
  "knownLevel l = (l = ''info'' \<or> l = ''warning'' \<or> l = ''critical'')"

section \<open>Example values\<close>

text \<open>The state that \<^verbatim>\<open>init\<close> builds.\<close>

definition initWorld :: world where
  "initWorld =
     \<lparr>isuCache = Map.empty, userCache = Map.empty, isuConditionCache = Map.empty,
      trendCache = NewTrendCache, insertQueue = NewQueue, trace = []\<rparr>"

definition exampleIsu :: "int \<Rightarrow> string \<Rightarrow> string \<Rightarrow> Isu" where
  "exampleIsu n uuid character =
     \<lparr>Isu.ID = n, Isu.JIAIsuUUID = uuid, Name = ''isu'', Image = [],
      Isu.Character = character, JIAUserID = ''user''\<rparr>"

definition exampleCondition :: "string \<Rightarrow> int \<Rightarrow> string \<Rightarrow> IsuCondition" where
  "exampleCondition uuid t l =
     \<lparr>IsuCondition.ID = 0, IsuCondition.JIAIsuUUID = uuid, IsuCondition.Timestamp = t,
      IsSitting = True, Condition = ''is_dirty=true,is_overweight=true,is_broken=true'',
      Message = ''m'', Level = l\<rparr>"

definition isuA :: Isu where
  "isuA = exampleIsu 1 ''uuid-a'' ''X''"

definition isuB :: Isu where
  "isuB = exampleIsu 2 ''uuid-b'' ''X''"

definition isuC :: Isu where
  "isuC = exampleIsu 3 ''uuid-c'' ''X''"

definition condA :: IsuCondition where
  "condA = exampleCondition ''uuid-a'' 10 ''critical''"

definition condB :: IsuCondition where
  "condB = exampleCondition ''uuid-b'' 20 ''critical''"

text \<open>A row whose level was never filled in: the level is the empty string.\<close>

definition condC :: IsuCondition where
  "condC = exampleCondition ''uuid-c'' 30 []"

text \<open>A store that answers every query with an error.\<close>

definition dbDown :: DB where
  "dbDown =
     \<lparr>getIsuCondition = (\<lambda>k. Inl (ErrOther ''connection refused'')),
      getIsu = (\<lambda>k. Inl (ErrOther ''connection refused'')),
      getUser = (\<lambda>k. Inl (ErrOther ''connection refused'')),
      selectCharacters = Inl (ErrOther ''connection refused''),
      selectIsuByCharacter = (\<lambda>c. Inl (ErrOther ''connection refused'')),
      namedExecInsert = (\<lambda>q. Some (ErrOther ''connection refused''))\<rparr>"

text \<open>
  A store with the devices A and B of character \<^verbatim>\<open>X\<close>, their latest conditions, and no
  user.
\<close>

definition dbTwoDevices :: DB where
  "dbTwoDevices =
     \<lparr>getIsuCondition =
        (\<lambda>k. if k = ''uuid-a'' then Inr condA
             else if k = ''uuid-b'' then Inr condB else Inl ErrNoRows),
      getIsu =
        (\<lambda>k. if k = ''uuid-a'' then Inr isuA
             else if k = ''uuid-b'' then Inr isuB else Inl ErrNoRows),
      getUser = (\<lambda>k. Inl ErrNoRows),
      selectCharacters = Inr [exampleIsu 0 [] ''X''],
      selectIsuByCharacter = (\<lambda>c. if c = ''X'' then Inr [isuA, isuB] else Inr []),
      namedExecInsert = (\<lambda>q. None)\<rparr>"

text \<open>The same store with a third device C between them.\<close>

definition dbThreeDevices :: DB where
  "dbThreeDevices =
     dbTwoDevices\<lparr>selectIsuByCharacter :=
       (\<lambda>c. if c = ''X'' then Inr ([isuA] @ isuC # [isuB]) else Inr [])\<rparr>"

definition snapshotX :: "TrendResponse list" where
  "snapshotX =
     [\<lparr>TrendResponse.Character = ''X'', Info = [], Warning = [],
       Critical = [\<lparr>TrendCondition.ID = 2, TrendCondition.Timestamp = 20\<rparr>,
                   \<lparr>TrendCondition.ID = 1, TrendCondition.Timestamp = 10\<rparr>]\<rparr>]"

text \<open>A state in which the latest conditions of A, B and C are resident.\<close>

definition cachedWorld :: world where
  "cachedWorld =
     initWorld\<lparr>isuConditionCache :=
       [''uuid-a'' \<mapsto> condA, ''uuid-b'' \<mapsto> condB, ''uuid-c'' \<mapsto> condC]\<rparr>"


section \<open>Properties of the severity classifier\<close>

lemma HasPrefix_iff: "HasPrefix s p \<longleftrightarrow> (\<exists>r. s = p @ r)"
  unfolding HasPrefix_def
  by (metis append_eq_conv_conj append_take_drop_id length_append le_add1)

lemma HasPrefix_drop: "HasPrefix (drop i s) p \<Longrightarrow> drop i s = p @ drop (i + length p) s"
  by (metis HasPrefix_iff append_eq_conv_conj drop_drop add.commute)

lemma HasPrefix_drop_len:
  "HasPrefix (drop i s) p \<Longrightarrow> length p = n \<Longrightarrow> drop i s = p @ drop (i + n) s"
  using HasPrefix_drop by blast

text \<open>Where the value step succeeds, the string holds \<^verbatim>\<open>true\<close> or \<^verbatim>\<open>false\<close> there.\<close>

lemma skipValue_Some:
  assumes "skipValue s i = Inr (Some j)"
  shows "\<exists>b. drop i s = boolWord b @ drop j s \<and> j = i + length (boolWord b)"
proof -
  from assms have le: "i \<le> length s"
    by (auto simp: skipValue_def slice_from_def split: if_splits)
  from assms le have
    "(HasPrefix (drop i s) ''true'' \<and> j = i + 4) \<or> (HasPrefix (drop i s) ''false'' \<and> j = i + 5)"
    by (auto simp: skipValue_def slice_from_def valueTrue_def valueFalse_def split: if_splits)
  then show ?thesis
  proof
    assume "HasPrefix (drop i s) ''true'' \<and> j = i + 4"
    then have "drop i s = boolWord True @ drop j s \<and> j = i + length (boolWord True)"
      using HasPrefix_drop_len [of i s "''true''" 4] by (simp add: boolWord_def)
    then show ?thesis by blast
  next
    assume "HasPrefix (drop i s) ''false'' \<and> j = i + 5"
    then have "drop i s = boolWord False @ drop j s \<and> j = i + length (boolWord False)"
      using HasPrefix_drop_len [of i s "''false''" 5] by (simp add: boolWord_def)
    then show ?thesis by blast
  qed
qed

text \<open>The last round of the loop: key, value, end of the string.\<close>

lemma loop_last:
  assumes "isValidConditionFormat_loop s 2 [k] i = Inr True"
  shows "\<exists>b. drop i s = k @ boolWord b"
proof -
  from assms have le: "i \<le> length s" and hp: "HasPrefix (drop i s) k"
    by (auto simp: slice_from_def split: if_splits)
  from assms le hp obtain j where sv: "skipValue s (i + length k) = Inr (Some j)"
    and j: "j = length s"
    by (auto simp: slice_from_def keys_def split: sum.splits option.splits if_splits)
  from skipValue_Some [OF sv] obtain b where "drop (i + length k) s = boolWord b @ drop j s"
    by blast
  with j HasPrefix_drop [OF hp] have "drop i s = k @ boolWord b" by simp
  then show ?thesis by blast
qed

text \<open>A round before the last: key, value, comma.\<close>

lemma loop_step:
  assumes "isValidConditionFormat_loop s n (k # ks) i = Inr True" and "n < 2"
  shows "\<exists>b j. drop i s = k @ boolWord b @ '','' @ drop j s
            \<and> isValidConditionFormat_loop s (Suc n) ks j = Inr True"
proof -
  from assms have le: "i \<le> length s" and hp: "HasPrefix (drop i s) k"
    by (auto simp: slice_from_def split: if_splits)
  from assms le hp obtain j where sv: "skipValue s (i + length k) = Inr (Some j)"
    and lt: "j < length s" and c: "s ! j = CHR '',''"
    and rest: "isValidConditionFormat_loop s (Suc n) ks (Suc j) = Inr True"
    by (auto simp: slice_from_def keys_def index_at_def
        split: sum.splits option.splits if_splits)
  from skipValue_Some [OF sv] obtain b where b: "drop (i + length k) s = boolWord b @ drop j s"
    by blast
  from lt c have "drop j s = '','' @ drop (Suc j) s"
    by (simp add: Cons_nth_drop_Suc [symmetric])
  with b HasPrefix_drop [OF hp] have "drop i s = k @ boolWord b @ '','' @ drop (Suc j) s"
    by simp
  with rest show ?thesis by blast
qed

lemma accepted_grammar:
  assumes "isValidConditionFormat s = Inr True"
  shows "\<exists>d ow b. s = conditionString d ow b"
proof -
  from assms have l0:
    "isValidConditionFormat_loop s 0 (''is_dirty='' # [''is_overweight='', ''is_broken='']) 0
       = Inr True"
    by (simp only: isValidConditionFormat_def keys_def)
  from loop_step [OF l0] obtain d j1 where
    s0: "drop 0 s = ''is_dirty='' @ boolWord d @ '','' @ drop j1 s"
    and l1: "isValidConditionFormat_loop s (Suc 0) (''is_overweight='' # [''is_broken='']) j1
               = Inr True"
    by auto
  from loop_step [OF l1] obtain ow j2 where
    s1: "drop j1 s = ''is_overweight='' @ boolWord ow @ '','' @ drop j2 s"
    and l2: "isValidConditionFormat_loop s (Suc (Suc 0)) [''is_broken=''] j2 = Inr True"
    by auto
  from l2 have "isValidConditionFormat_loop s 2 [''is_broken=''] j2 = Inr True"
    by (simp only: numeral_2_eq_2)
  from loop_last [OF this] obtain b where s2: "drop j2 s = ''is_broken='' @ boolWord b"
    by blast
  from s0 s1 s2 have "s = conditionString d ow b"
    by (simp add: conditionString_def)
  then show ?thesis by blast
qed

lemma grammar_accepted: "isValidConditionFormat (conditionString d ow b) = Inr True"
  by (cases d; cases ow; cases b;
      simp add: conditionString_def boolWord_def isValidConditionFormat_def keys_def
        slice_from_def HasPrefix_def skipValue_def valueTrue_def valueFalse_def index_at_def)

text \<open>The validator answers \<^verbatim>\<open>true\<close> on the eight strings of the grammar and on no other.\<close>

lemma isValidConditionFormat_accepts_iff:
  "isValidConditionFormat s = Inr True \<longleftrightarrow> (\<exists>d ow b. s = conditionString d ow b)"
  using accepted_grammar grammar_accepted by blast

lemma conditionString_inj:
  "conditionString d ow b = conditionString d' ow' b' \<Longrightarrow> d = d' \<and> ow = ow' \<and> b = b'"
  by (cases d; cases ow; cases b; cases d'; cases ow'; cases b';
      simp add: conditionString_def boolWord_def)

lemma calculateConditionLevel_conditionString:
  "calculateConditionLevel (conditionString d ow b) = Inr l
     \<longleftrightarrow> levelOfTrueCount (trueCount d ow b) = Some l"
  by (cases d; cases ow; cases b;
      auto simp add: conditionString_def boolWord_def calculateConditionLevel_def HasPrefix_def
        levelOfTrueCount_def trueCount_def conditionLevelInfo_def conditionLevelWarning_def
        conditionLevelCritical_def)

text \<open>
  Claim C2. The validator is claimed to return \<^verbatim>\<open>false\<close> on every deviation from the
  grammar without any out-of-range access. On a string that ends right behind the first
  (or the second) value, the comma test \<^verbatim>\<open>conditionStr[idxCondStr]\<close> of line 1626 reads
  at the length of the string: the function panics instead of returning \<^verbatim>\<open>false\<close>.
\<close>

theorem isValidConditionFormat_panics_on_truncated:
  "isValidConditionFormat ''is_dirty=true'' = Inl IndexOutOfRange"
  by (simp add: isValidConditionFormat_def keys_def slice_from_def HasPrefix_def skipValue_def
      valueTrue_def valueFalse_def index_at_def)

text \<open>
  Claim C3. Every string that the validator accepts is the encoding of three boolean
  assignments to the fixed keys in their order; on it \<open>calculateConditionLevel\<close> returns
  no error, and returns \<^verbatim>\<open>info\<close> when none of the three is true, \<^verbatim>\<open>warning\<close> when one or
  two are, \<^verbatim>\<open>critical\<close> when all three are.
\<close>

theorem calculateConditionLevel_of_accepted:
  assumes "isValidConditionFormat s = Inr True"
  shows "\<exists>d ow b l. s = conditionString d ow b
           \<and> calculateConditionLevel s = Inr l
           \<and> levelOfTrueCount (trueCount d ow b) = Some l
           \<and> l = (if \<not> d \<and> \<not> ow \<and> \<not> b then ''info''
                  else if d \<and> ow \<and> b then ''critical'' else ''warning'')"
proof -
  from accepted_grammar [OF assms] obtain d ow b where s: "s = conditionString d ow b"
    by blast
  define l where "l = (if \<not> d \<and> \<not> ow \<and> \<not> b then ''info''
                       else if d \<and> ow \<and> b then ''critical'' else ''warning'')"
  have lv: "levelOfTrueCount (trueCount d ow b) = Some l"
    by (cases d; cases ow; cases b; simp add: l_def levelOfTrueCount_def trueCount_def)
  then have "calculateConditionLevel s = Inr l"
    by (simp add: s calculateConditionLevel_conditionString)
  with s lv l_def show ?thesis by blast
qed

theorem calculateConditionLevel_of_accepted_witness:
  "isValidConditionFormat ''is_dirty=true,is_overweight=false,is_broken=true'' = Inr True
   \<and> calculateConditionLevel ''is_dirty=true,is_overweight=false,is_broken=true''
       = Inr ''warning''"
proof -
  have h: "isValidConditionFormat ''is_dirty=true,is_overweight=false,is_broken=true''
             = Inr True"
    by (simp add: isValidConditionFormat_def keys_def slice_from_def HasPrefix_def
        skipValue_def valueTrue_def valueFalse_def index_at_def)
  from calculateConditionLevel_of_accepted [OF h] obtain d ow b l where
    s: "''is_dirty=true,is_overweight=false,is_broken=true'' = conditionString d ow b"
    and c: "calculateConditionLevel ''is_dirty=true,is_overweight=false,is_broken=true''
              = Inr l"
    and l: "l = (if \<not> d \<and> \<not> ow \<and> \<not> b then ''info''
                 else if d \<and> ow \<and> b then ''critical'' else ''warning'')"
    by blast
  have "conditionString True False True = conditionString d ow b"
    using s by (simp add: conditionString_def boolWord_def)
  from conditionString_inj [OF this] l have "l = ''warning''" by simp
  with h c show ?thesis by simp
qed

section \<open>Properties of the write buffer\<close>

text \<open>
  Claim C6. On a new buffer, after \<open>Insert A\<close> and then \<open>Insert B\<close>, \<open>PopAll\<close> returns the
  records of \<open>A\<close> followed by those of \<open>B\<close>, in their order; a second \<open>PopAll\<close> right after
  returns the empty sequence and leaves the pending sequence empty.
\<close>

theorem InsertQueue_fifo_then_empty:
  "PopAll (Insert B (Insert A (w\<lparr>insertQueue := NewQueue\<rparr>))) = (A @ B, w\<lparr>insertQueue := []\<rparr>)
   \<and> PopAll (snd (PopAll (Insert B (Insert A (w\<lparr>insertQueue := NewQueue\<rparr>)))))
       = ([], w\<lparr>insertQueue := []\<rparr>)
   \<and> insertQueue (snd (PopAll (snd (PopAll (Insert B (Insert A (w\<lparr>insertQueue := NewQueue\<rparr>))))))) = []"
  by (simp add: PopAll_def Insert_def NewQueue_def)

section \<open>Basic facts about the state\<close>

lemma emit_simps [simp]:
  "trace (emit ev w) = trace w @ [ev]"
  "isuConditionCache (emit ev w) = isuConditionCache w"
  "isuCache (emit ev w) = isuCache w"
  "userCache (emit ev w) = userCache w"
  "trendCache (emit ev w) = trendCache w"
  "insertQueue (emit ev w) = insertQueue w"
  by (simp_all add: emit_def)

section \<open>Properties of the flush cycle\<close>

lemma fold_Forget_trace:
  "trace (fold (\<lambda>cond. IsuConditionCache_Forget (IsuCondition.JIAIsuUUID cond)) q w)
     = trace w @ map (\<lambda>cond. ForgetIsuCondition (IsuCondition.JIAIsuUUID cond)) q"
  by (induction q arbitrary: w) (simp_all add: IsuConditionCache_Forget_def)

lemma fold_Forget_cache:
  "isuConditionCache (fold (\<lambda>cond. IsuConditionCache_Forget (IsuCondition.JIAIsuUUID cond)) q w)
     = (\<lambda>k. if k \<in> IsuCondition.JIAIsuUUID ` set q then None else isuConditionCache w k)"
  by (induction q arbitrary: w) (auto simp add: IsuConditionCache_Forget_def fun_eq_iff)

lemma fold_Forget_others:
  "isuCache (fold (\<lambda>cond. IsuConditionCache_Forget (IsuCondition.JIAIsuUUID cond)) q w)
     = isuCache w"
  "userCache (fold (\<lambda>cond. IsuConditionCache_Forget (IsuCondition.JIAIsuUUID cond)) q w)
     = userCache w"
  "trendCache (fold (\<lambda>cond. IsuConditionCache_Forget (IsuCondition.JIAIsuUUID cond)) q w)
     = trendCache w"
  "insertQueue (fold (\<lambda>cond. IsuConditionCache_Forget (IsuCondition.JIAIsuUUID cond)) q w)
     = insertQueue w"
  "world.more (fold (\<lambda>cond. IsuConditionCache_Forget (IsuCondition.JIAIsuUUID cond)) q w)
     = world.more w"
  by (induction q arbitrary: w; simp add: IsuConditionCache_Forget_def emit_def)+

lemma fold_Forget_world:
  "fold (\<lambda>cond. IsuConditionCache_Forget (IsuCondition.JIAIsuUUID cond)) q w
     = w\<lparr>isuConditionCache :=
           (\<lambda>k. if k \<in> IsuCondition.JIAIsuUUID ` set q then None else isuConditionCache w k),
         trace := trace w @ map (\<lambda>cond. ForgetIsuCondition (IsuCondition.JIAIsuUUID cond)) q\<rparr>"
  by (rule world.equality) (simp_all add: fold_Forget_trace fold_Forget_cache fold_Forget_others)

text \<open>
  Claim C5. A flush cycle drains the buffer. If the drained sequence is empty, nothing
  else happens: the state, with its caches and its trace of store calls, is the one
  before. Otherwise the latest-condition entry of every drained record's device key is
  forgotten, and then one batched insert with all drained records is sent to the store
  (followed by a log line if it fails); the trace holds these events in this order and
  no other.
\<close>

theorem flush_cycle_drains_invalidates_inserts:
  "insertIsuConditionScheduled_tick db w =
     (if insertQueue w = [] then w
      else w\<lparr>isuConditionCache :=
                (\<lambda>k. if k \<in> IsuCondition.JIAIsuUUID ` set (insertQueue w) then None
                      else isuConditionCache w k),
              insertQueue := [],
              trace := trace w @ flush_events db (insertQueue w)\<rparr>)"
proof (cases "insertQueue w = []")
  case True
  then have "w\<lparr>insertQueue := []\<rparr> = w" by (cases w) simp
  with True show ?thesis
    by (simp add: insertIsuConditionScheduled_tick_def PopAll_def NewQueue_def)
next
  case False
  have "insertIsuConditionScheduled_tick db w
          = w\<lparr>isuConditionCache :=
                (\<lambda>k. if k \<in> IsuCondition.JIAIsuUUID ` set (insertQueue w) then None
                      else isuConditionCache w k),
              insertQueue := [],
              trace := trace w @ flush_events db (insertQueue w)\<rparr>"
    using False
    by (intro world.equality)
      (simp_all add: insertIsuConditionScheduled_tick_def PopAll_def NewQueue_def Let_def
        fold_Forget_trace fold_Forget_cache fold_Forget_others flush_events_def fun_eq_iff
        split: option.splits)
  with False show ?thesis by simp
qed

theorem flush_cycle_drains_invalidates_inserts_witness:
  "insertQueue (Insert [condB] (Insert [condA] cachedWorld)) = [condA, condB]
   \<and> insertIsuConditionScheduled_tick dbTwoDevices (Insert [condB] (Insert [condA] cachedWorld))
       = (Insert [condB] (Insert [condA] cachedWorld))
           \<lparr>isuConditionCache :=
              (\<lambda>k. if k \<in> IsuCondition.JIAIsuUUID ` set [condA, condB] then None
                    else isuConditionCache (Insert [condB] (Insert [condA] cachedWorld)) k),
            insertQueue := [],
            trace := trace (Insert [condB] (Insert [condA] cachedWorld))
                       @ flush_events dbTwoDevices [condA, condB]\<rparr>
   \<and> flush_events dbTwoDevices [condA, condB]
       = [ForgetIsuCondition ''uuid-a'', ForgetIsuCondition ''uuid-b'',
          StoreInsert [condA, condB]]
   \<and> insertIsuConditionScheduled_tick dbTwoDevices initWorld = initWorld"
proof -
  have q: "insertQueue (Insert [condB] (Insert [condA] cachedWorld)) = [condA, condB]"
    by (simp add: Insert_def cachedWorld_def initWorld_def NewQueue_def)
  have ev: "flush_events dbTwoDevices [condA, condB]
              = [ForgetIsuCondition ''uuid-a'', ForgetIsuCondition ''uuid-b'',
                 StoreInsert [condA, condB]]"
    by (simp add: flush_events_def dbTwoDevices_def)
      (simp add: condA_def condB_def exampleCondition_def)
  have i: "insertQueue initWorld = []"
    by (simp add: initWorld_def NewQueue_def)
  from flush_cycle_drains_invalidates_inserts
    [of dbTwoDevices "Insert [condB] (Insert [condA] cachedWorld)"]
    flush_cycle_drains_invalidates_inserts [of dbTwoDevices initWorld]
  show ?thesis
    by (simp add: q ev i)
qed

text \<open>
  Claim C4. If the batched insert of a flush cycle fails, the failure is logged and the
  batch is dropped: the cycle differs from one whose insert succeeds by the log line only,
  the pending sequence is empty after it as after any drain, the store has received the
  batch once, and the next cycle, whatever the store then answers, does nothing.
\<close>

theorem flush_failure_discards_batch:
  assumes "insertQueue w \<noteq> []" and "namedExecInsert db (insertQueue w) = Some err"
  shows "insertIsuConditionScheduled_tick db w
           = emit (LogLine (''failed to insert isu condition: '' @ Error err))
               (insertIsuConditionScheduled_tick (db\<lparr>namedExecInsert := \<lambda>q. None\<rparr>) w)
         \<and> insertQueue (insertIsuConditionScheduled_tick db w) = []
         \<and> trace (insertIsuConditionScheduled_tick db w)
             = trace w
               @ map (\<lambda>cond. ForgetIsuCondition (IsuCondition.JIAIsuUUID cond)) (insertQueue w)
               @ [StoreInsert (insertQueue w),
                  LogLine (''failed to insert isu condition: '' @ Error err)]
         \<and> insertIsuConditionScheduled_tick db' (insertIsuConditionScheduled_tick db w)
             = insertIsuConditionScheduled_tick db w"
proof -
  let ?w' = "insertIsuConditionScheduled_tick db w"
  have q: "insertQueue ?w' = []"
    using assms
    by (simp add: insertIsuConditionScheduled_tick_def PopAll_def NewQueue_def Let_def
        fold_Forget_world)
  have "?w'\<lparr>insertQueue := []\<rparr> = ?w'"
    using q by (cases ?w') simp
  then have next_cycle: "insertIsuConditionScheduled_tick db' ?w' = ?w'"
    using q by (simp add: insertIsuConditionScheduled_tick_def [of db' ?w'] PopAll_def NewQueue_def)
  from assms have
    "?w' = emit (LogLine (''failed to insert isu condition: '' @ Error err))
             (insertIsuConditionScheduled_tick (db\<lparr>namedExecInsert := \<lambda>q. None\<rparr>) w)"
    by (simp add: insertIsuConditionScheduled_tick_def PopAll_def NewQueue_def Let_def)
  moreover from assms have
    "trace ?w' = trace w
       @ map (\<lambda>cond. ForgetIsuCondition (IsuCondition.JIAIsuUUID cond)) (insertQueue w)
       @ [StoreInsert (insertQueue w),
          LogLine (''failed to insert isu condition: '' @ Error err)]"
    by (simp add: insertIsuConditionScheduled_tick_def PopAll_def NewQueue_def Let_def
        fold_Forget_world)
  ultimately show ?thesis using q next_cycle by simp
qed

theorem flush_failure_discards_batch_witness:
  "insertQueue (Insert [condA] initWorld) \<noteq> []
   \<and> namedExecInsert dbDown (insertQueue (Insert [condA] initWorld))
       = Some (ErrOther ''connection refused'')
   \<and> insertIsuConditionScheduled_tick dbDown (Insert [condA] initWorld)
       = initWorld\<lparr>trace := [ForgetIsuCondition ''uuid-a'', StoreInsert [condA],
                                LogLine ''failed to insert isu condition: connection refused'']\<rparr>
   \<and> insertIsuConditionScheduled_tick dbTwoDevices
         (insertIsuConditionScheduled_tick dbDown (Insert [condA] initWorld))
       = insertIsuConditionScheduled_tick dbDown (Insert [condA] initWorld)"
proof -
  have h1: "insertQueue (Insert [condA] initWorld) \<noteq> []"
    by (simp add: Insert_def)
  have h2: "namedExecInsert dbDown (insertQueue (Insert [condA] initWorld))
              = Some (ErrOther ''connection refused'')"
    by (simp add: dbDown_def)
  have v: "insertIsuConditionScheduled_tick dbDown (Insert [condA] initWorld)
       = initWorld\<lparr>trace := [ForgetIsuCondition ''uuid-a'', StoreInsert [condA],
                                LogLine ''failed to insert isu condition: connection refused'']\<rparr>"
    by (simp add: insertIsuConditionScheduled_tick_def PopAll_def NewQueue_def Let_def
        Insert_def initWorld_def dbDown_def IsuConditionCache_Forget_def emit_def
        condA_def exampleCondition_def)
  from flush_failure_discards_batch [OF h1 h2, of dbTwoDevices] have
    n: "insertIsuConditionScheduled_tick dbTwoDevices
          (insertIsuConditionScheduled_tick dbDown (Insert [condA] initWorld))
        = insertIsuConditionScheduled_tick dbDown (Insert [condA] initWorld)"
    by blast
  show ?thesis by (intro conjI h1 h2 v n)
qed

section \<open>Properties of the read-through caches\<close>

subsection \<open>The latest-condition cache\<close>

lemma IsuConditionCache_Get_hit:
  "isuConditionCache w k = Some v \<Longrightarrow> IsuConditionCache_Get db k w = (Inr v, w)"
  by (simp add: IsuConditionCache_Get_def)

lemma IsuConditionCache_Get_load:
  "isuConditionCache w k = None \<Longrightarrow> getIsuCondition db k = Inr v \<Longrightarrow>
   IsuConditionCache_Get db k w
     = (Inr v, (emit (StoreGetIsuCondition k) w)\<lparr>isuConditionCache := (isuConditionCache w)(k \<mapsto> v)\<rparr>)"
  by (simp add: IsuConditionCache_Get_def)

lemma IsuConditionCache_Get_not_found:
  "isuConditionCache w k = None \<Longrightarrow> getIsuCondition db k = Inl e \<Longrightarrow> errors_Is_ErrNoRows e \<Longrightarrow>
   IsuConditionCache_Get db k w = (Inl ErrNoRows, emit (StoreGetIsuCondition k) w)"
  by (simp add: IsuConditionCache_Get_def)

lemma IsuConditionCache_Get_other:
  assumes "IsuConditionCache_Get db k' w = (r, w1)" and "k' \<noteq> k"
  shows "isuConditionCache w1 k = isuConditionCache w k"
    and "\<exists>evs. trace w1 = trace w @ evs \<and> StoreGetIsuCondition k \<notin> set evs"
  using assms
  by (auto simp add: IsuConditionCache_Get_def Let_def split: option.splits sum.splits if_splits)

lemma IsuConditionCache_Forget_other:
  "k' \<noteq> k \<Longrightarrow> isuConditionCache (IsuConditionCache_Forget k' w) k = isuConditionCache w k"
  "trace (IsuConditionCache_Forget k' w) = trace w @ [ForgetIsuCondition k']"
  by (simp_all add: IsuConditionCache_Forget_def)

lemma IsuConditionCache_run_cached:
  assumes "isuConditionCache w k = Some v" and "OpForget k \<notin> set ops"
    and "IsuConditionCache_run ops w = (rs, w')"
  shows "(\<forall>r. (k, r) \<in> set rs \<longrightarrow> r = Inr v)
         \<and> (\<exists>evs. trace w' = trace w @ evs \<and> StoreGetIsuCondition k \<notin> set evs)"
  using assms
proof (induction ops arbitrary: w rs w')
  case Nil
  then show ?case by simp
next
  case (Cons op ops)
  show ?case
  proof (cases op)
    case (OpGet db k')
    obtain r w1 where g: "IsuConditionCache_Get db k' w = (r, w1)" by force
    obtain rs1 where run: "IsuConditionCache_run ops w1 = (rs1, w')" and rs: "rs = (k', r) # rs1"
      using Cons.prems(3) OpGet g by (auto split: prod.splits)
    have c1: "isuConditionCache w1 k = Some v" and
      t1: "\<exists>evs. trace w1 = trace w @ evs \<and> StoreGetIsuCondition k \<notin> set evs"
      and r: "k' = k \<longrightarrow> r = Inr v"
    proof -
      show "isuConditionCache w1 k = Some v"
        using g Cons.prems(1) IsuConditionCache_Get_hit [OF Cons.prems(1), of db]
          IsuConditionCache_Get_other(1) [OF g] by (cases "k' = k") auto
      show "\<exists>evs. trace w1 = trace w @ evs \<and> StoreGetIsuCondition k \<notin> set evs"
        using g IsuConditionCache_Get_hit [OF Cons.prems(1), of db]
          IsuConditionCache_Get_other(2) [OF g] by (cases "k' = k") auto
      show "k' = k \<longrightarrow> r = Inr v"
        using g IsuConditionCache_Get_hit [OF Cons.prems(1), of db] by auto
    qed
    from Cons.prems(2) have nf: "OpForget k \<notin> set ops" by simp
    from Cons.IH [OF c1 nf run] t1 r rs show ?thesis by auto
  next
    case (OpForget k')
    with Cons.prems(2) have ne: "k' \<noteq> k" by auto
    have run: "IsuConditionCache_run ops (IsuConditionCache_Forget k' w) = (rs, w')"
      using Cons.prems(3) OpForget by simp
    have c1: "isuConditionCache (IsuConditionCache_Forget k' w) k = Some v"
      using Cons.prems(1) ne by (simp add: IsuConditionCache_Forget_other)
    from Cons.prems(2) have nf: "OpForget k \<notin> set ops" by simp
    from Cons.IH [OF c1 nf run] show ?thesis
      by (auto simp add: IsuConditionCache_Forget_other)
  qed
qed

lemma IsuConditionCache_one_store_call:
  assumes "isuConditionCache w k = None" and "getIsuCondition db k = Inr v"
    and "OpForget k \<notin> set ops"
  shows "case IsuConditionCache_run (OpGet db k # ops) w of
           (rs, w') \<Rightarrow>
             (\<forall>r. (k, r) \<in> set rs \<longrightarrow> r = Inr v)
             \<and> (\<exists>evs. trace w' = trace w @ evs \<and> count_list evs (StoreGetIsuCondition k) = 1)"
proof -
  let ?w1 = "(emit (StoreGetIsuCondition k) w)\<lparr>isuConditionCache := (isuConditionCache w)(k \<mapsto> v)\<rparr>"
  obtain rs w' where run: "IsuConditionCache_run ops ?w1 = (rs, w')" by force
  have c: "isuConditionCache ?w1 k = Some v" by simp
  from IsuConditionCache_run_cached [OF c assms(3) run] obtain evs where
    rs: "\<forall>r. (k, r) \<in> set rs \<longrightarrow> r = Inr v"
    and evs: "trace w' = trace ?w1 @ evs" "StoreGetIsuCondition k \<notin> set evs" by blast
  from evs have "trace w' = trace w @ (StoreGetIsuCondition k # evs)
                 \<and> count_list (StoreGetIsuCondition k # evs) (StoreGetIsuCondition k) = 1"
    by (simp add: count_list_0_iff)
  then have "\<exists>evs. trace w' = trace w @ evs \<and> count_list evs (StoreGetIsuCondition k) = 1"
    by blast
  with rs run show ?thesis
    by (simp add: IsuConditionCache_Get_load [OF assms(1,2)])
qed

subsection \<open>The device cache\<close>

lemma IsuCache_Get_hit:
  "isuCache w k = Some v \<Longrightarrow> IsuCache_Get db k w = (Inr v, w)"
  by (simp add: IsuCache_Get_def)

lemma IsuCache_Get_load:
  "isuCache w k = None \<Longrightarrow> getIsu db k = Inr v \<Longrightarrow>
   IsuCache_Get db k w
     = (Inr v, (emit (StoreGetIsu k) w)\<lparr>isuCache := (isuCache w)(k \<mapsto> v)\<rparr>)"
  by (simp add: IsuCache_Get_def)

lemma IsuCache_Get_other:
  assumes "IsuCache_Get db k' w = (r, w1)" and "k' \<noteq> k"
  shows "isuCache w1 k = isuCache w k"
    and "\<exists>evs. trace w1 = trace w @ evs \<and> StoreGetIsu k \<notin> set evs"
  using assms
  by (auto simp add: IsuCache_Get_def Let_def split: option.splits sum.splits if_splits)

lemma IsuCache_Forget_other:
  "k' \<noteq> k \<Longrightarrow> isuCache (IsuCache_Forget k' w) k = isuCache w k"
  "trace (IsuCache_Forget k' w) = trace w @ [ForgetIsu k']"
  by (simp_all add: IsuCache_Forget_def)

lemma IsuCache_run_cached:
  assumes "isuCache w k = Some v" and "OpForget k \<notin> set ops"
    and "IsuCache_run ops w = (rs, w')"
  shows "(\<forall>r. (k, r) \<in> set rs \<longrightarrow> r = Inr v)
         \<and> (\<exists>evs. trace w' = trace w @ evs \<and> StoreGetIsu k \<notin> set evs)"
  using assms
proof (induction ops arbitrary: w rs w')
  case Nil
  then show ?case by simp
next
  case (Cons op ops)
  show ?case
  proof (cases op)
    case (OpGet db k')
    obtain r w1 where g: "IsuCache_Get db k' w = (r, w1)" by force
    obtain rs1 where run: "IsuCache_run ops w1 = (rs1, w')" and rs: "rs = (k', r) # rs1"
      using Cons.prems(3) OpGet g by (auto split: prod.splits)
    have c1: "isuCache w1 k = Some v" and
      t1: "\<exists>evs. trace w1 = trace w @ evs \<and> StoreGetIsu k \<notin> set evs"
      and r: "k' = k \<longrightarrow> r = Inr v"
    proof -
      show "isuCache w1 k = Some v"
        using g Cons.prems(1) IsuCache_Get_hit [OF Cons.prems(1), of db]
          IsuCache_Get_other(1) [OF g] by (cases "k' = k") auto
      show "\<exists>evs. trace w1 = trace w @ evs \<and> StoreGetIsu k \<notin> set evs"
        using g IsuCache_Get_hit [OF Cons.prems(1), of db]
          IsuCache_Get_other(2) [OF g] by (cases "k' = k") auto
      show "k' = k \<longrightarrow> r = Inr v"
        using g IsuCache_Get_hit [OF Cons.prems(1), of db] by auto
    qed
    from Cons.prems(2) have nf: "OpForget k \<notin> set ops" by simp
    from Cons.IH [OF c1 nf run] t1 r rs show ?thesis by auto
  next
    case (OpForget k')
    with Cons.prems(2) have ne: "k' \<noteq> k" by auto
    have run: "IsuCache_run ops (IsuCache_Forget k' w) = (rs, w')"
      using Cons.prems(3) OpForget by simp
    have c1: "isuCache (IsuCache_Forget k' w) k = Some v"
      using Cons.prems(1) ne by (simp add: IsuCache_Forget_other)
    from Cons.prems(2) have nf: "OpForget k \<notin> set ops" by simp
    from Cons.IH [OF c1 nf run] show ?thesis
      by (auto simp add: IsuCache_Forget_other)
  qed
qed

lemma IsuCache_one_store_call:
  assumes "isuCache w k = None" and "getIsu db k = Inr v"
    and "OpForget k \<notin> set ops"
  shows "case IsuCache_run (OpGet db k # ops) w of
           (rs, w') \<Rightarrow>
             (\<forall>r. (k, r) \<in> set rs \<longrightarrow> r = Inr v)
             \<and> (\<exists>evs. trace w' = trace w @ evs \<and> count_list evs (StoreGetIsu k) = 1)"
proof -
  let ?w1 = "(emit (StoreGetIsu k) w)\<lparr>isuCache := (isuCache w)(k \<mapsto> v)\<rparr>"
  obtain rs w' where run: "IsuCache_run ops ?w1 = (rs, w')" by force
  have c: "isuCache ?w1 k = Some v" by simp
  from IsuCache_run_cached [OF c assms(3) run] obtain evs where
    rs: "\<forall>r. (k, r) \<in> set rs \<longrightarrow> r = Inr v"
    and evs: "trace w' = trace ?w1 @ evs" "StoreGetIsu k \<notin> set evs" by blast
  from evs have "trace w' = trace w @ (StoreGetIsu k # evs)
                 \<and> count_list (StoreGetIsu k # evs) (StoreGetIsu k) = 1"
    by (simp add: count_list_0_iff)
  then have "\<exists>evs. trace w' = trace w @ evs \<and> count_list evs (StoreGetIsu k) = 1"
    by blast
  with rs run show ?thesis
    by (simp add: IsuCache_Get_load [OF assms(1,2)])
qed

subsection \<open>Not-found answers\<close>

text \<open>
  In the latest-condition cache a not-found answer of the store comes back as
  \<^verbatim>\<open>sql.ErrNoRows\<close> and nothing is stored, so the next \<open>Get\<close> asks the store again.
\<close>

lemma IsuConditionCache_Get_not_found_again:
  assumes "isuConditionCache w k = None" and "getIsuCondition db k = Inl e"
    and "errors_Is_ErrNoRows e"
  shows "fst (IsuConditionCache_Get db k w) = Inl ErrNoRows
         \<and> isuConditionCache (snd (IsuConditionCache_Get db k w)) = isuConditionCache w
         \<and> trace (snd (IsuConditionCache_Get db' k (snd (IsuConditionCache_Get db k w))))
             = trace w @ [StoreGetIsuCondition k, StoreGetIsuCondition k]"
  using assms
  by (cases "getIsuCondition db' k")
    (simp_all add: IsuConditionCache_Get_not_found IsuConditionCache_Get_def Let_def)

text \<open>
  The user cache never stores anything on a failed \<open>Get\<close>, and returns \<^verbatim>\<open>sql.ErrNoRows\<close>
  where \<^verbatim>\<open>db.Get\<close> succeeds with the count zero.
\<close>

lemma UserCache_Get_failure_stores_nothing:
  "snd (fst (UserCache_Get db k w)) \<noteq> None \<Longrightarrow>
   userCache (snd (UserCache_Get db k w)) = userCache w"
  by (auto simp add: UserCache_Get_def Let_def split: option.splits sum.splits if_splits)

lemma UserCache_Get_count_zero:
  "userCache w k = None \<Longrightarrow> getUser db k = Inr 0 \<Longrightarrow>
   UserCache_Get db k w = ((False, Some ErrNoRows), emit (StoreGetUser k) w)"
  by (simp add: UserCache_Get_def)

text \<open>
  Where \<^verbatim>\<open>db.Get\<close> reports that there is no row, which it does by the error
  \<^verbatim>\<open>sql.ErrNoRows\<close>, the error that \<^verbatim>\<open>UserCache.Get\<close> returns is a new one for which
  \<^verbatim>\<open>errors.Is(err, sql.ErrNoRows)\<close> is false.
\<close>

lemma UserCache_Get_no_row:
  "userCache w k = None \<Longrightarrow> getUser db k = Inl ErrNoRows \<Longrightarrow>
   UserCache_Get db k w
     = ((False, Some (ErrOther ''db error: sql: no rows in result set'')),
        emit (StoreGetUser k) w)"
  by (simp add: UserCache_Get_def Errorf_db_error_def)

text \<open>
  Claim C7. A \<open>Get\<close> for a key that the store does not have is claimed to return a
  not-found error and to store nothing, in the latest-condition cache and in the user
  cache. The user cache stores nothing, but for a user that the store does not have its
  \<open>Get\<close> returns the error \<^verbatim>\<open>db error: sql: no rows in result set\<close>, which is not a
  not-found error: \<^verbatim>\<open>getUserIDFromSession\<close> tests it with
  \<^verbatim>\<open>errors.Is(err, sql.ErrNoRows)\<close>, which is false.
\<close>

theorem UserCache_Get_missing_user_not_ErrNoRows:
  "getUser dbTwoDevices ''nobody'' = Inl ErrNoRows
   \<and> UserCache_Get dbTwoDevices ''nobody'' initWorld
       = ((False, Some (ErrOther ''db error: sql: no rows in result set'')),
          emit (StoreGetUser ''nobody'') initWorld)
   \<and> \<not> errors_Is_ErrNoRows (ErrOther ''db error: sql: no rows in result set'')"
  by (simp add: UserCache_Get_def Errorf_db_error_def dbTwoDevices_def initWorld_def)

subsection \<open>Resident entries\<close>

text \<open>
  Claim C8. For the latest-condition cache and for the device cache: when a \<open>Get\<close> for a
  key misses and loads a value from the store, then in every sequence of later \<open>Get\<close>
  and \<open>Forget\<close> calls on that cache that has no \<open>Forget\<close> for the key, whatever the store
  answers by then, every \<open>Get\<close> for the key returns the loaded value, and the whole run has
  sent exactly one query for the key to the store.
\<close>

theorem resident_entry_served_without_store_call:
  "(isuConditionCache w k = None \<and> getIsuCondition db k = Inr v \<and> OpForget k \<notin> set ops
      \<longrightarrow> (case IsuConditionCache_run (OpGet db k # ops) w of
             (rs, w') \<Rightarrow>
               (\<forall>r. (k, r) \<in> set rs \<longrightarrow> r = Inr v)
               \<and> (\<exists>evs. trace w' = trace w @ evs
                         \<and> count_list evs (StoreGetIsuCondition k) = 1)))
   \<and> (isuCache w k = None \<and> getIsu db k = Inr i \<and> OpForget k \<notin> set ops
      \<longrightarrow> (case IsuCache_run (OpGet db k # ops) w of
             (rs, w') \<Rightarrow>
               (\<forall>r. (k, r) \<in> set rs \<longrightarrow> r = Inr i)
               \<and> (\<exists>evs. trace w' = trace w @ evs
                         \<and> count_list evs (StoreGetIsu k) = 1)))"
proof (intro conjI impI)
  assume "isuConditionCache w k = None \<and> getIsuCondition db k = Inr v
          \<and> OpForget k \<notin> set ops"
  then have a: "isuConditionCache w k = None" and b: "getIsuCondition db k = Inr v"
    and c: "OpForget k \<notin> set ops"
    by simp_all
  from IsuConditionCache_one_store_call [OF a b c]
  show "case IsuConditionCache_run (OpGet db k # ops) w of
          (rs, w') \<Rightarrow>
            (\<forall>r. (k, r) \<in> set rs \<longrightarrow> r = Inr v)
            \<and> (\<exists>evs. trace w' = trace w @ evs
                      \<and> count_list evs (StoreGetIsuCondition k) = 1)" .
next
  assume "isuCache w k = None \<and> getIsu db k = Inr i \<and> OpForget k \<notin> set ops"
  then have a: "isuCache w k = None" and b: "getIsu db k = Inr i"
    and c: "OpForget k \<notin> set ops"
    by simp_all
  from IsuCache_one_store_call [OF a b c]
  show "case IsuCache_run (OpGet db k # ops) w of
          (rs, w') \<Rightarrow>
            (\<forall>r. (k, r) \<in> set rs \<longrightarrow> r = Inr i)
            \<and> (\<exists>evs. trace w' = trace w @ evs
                      \<and> count_list evs (StoreGetIsu k) = 1)" .
qed

theorem resident_entry_served_without_store_call_witness:
  "isuConditionCache initWorld ''uuid-a'' = None
   \<and> getIsuCondition dbTwoDevices ''uuid-a'' = Inr condA
   \<and> isuCache initWorld ''uuid-a'' = None
   \<and> getIsu dbTwoDevices ''uuid-a'' = Inr isuA
   \<and> OpForget ''uuid-a''
       \<notin> set [OpGet dbDown ''uuid-a'', OpForget ''uuid-b'', OpGet dbTwoDevices ''uuid-a'']
   \<and> (case IsuConditionCache_run
            (OpGet dbTwoDevices ''uuid-a''
               # [OpGet dbDown ''uuid-a'', OpForget ''uuid-b'', OpGet dbTwoDevices ''uuid-a''])
            initWorld of
         (rs, w') \<Rightarrow>
           (\<forall>r. (''uuid-a'', r) \<in> set rs \<longrightarrow> r = Inr condA)
           \<and> (\<exists>evs. trace w' = trace initWorld @ evs
                     \<and> count_list evs (StoreGetIsuCondition ''uuid-a'') = 1))
   \<and> (case IsuCache_run
            (OpGet dbTwoDevices ''uuid-a''
               # [OpGet dbDown ''uuid-a'', OpForget ''uuid-b'', OpGet dbTwoDevices ''uuid-a''])
            initWorld of
         (rs, w') \<Rightarrow>
           (\<forall>r. (''uuid-a'', r) \<in> set rs \<longrightarrow> r = Inr isuA)
           \<and> (\<exists>evs. trace w' = trace initWorld @ evs
                     \<and> count_list evs (StoreGetIsu ''uuid-a'') = 1))"
proof -
  have h1: "isuConditionCache initWorld ''uuid-a'' = None"
    and h2: "getIsuCondition dbTwoDevices ''uuid-a'' = Inr condA"
    and h3: "isuCache initWorld ''uuid-a'' = None"
    and h4: "getIsu dbTwoDevices ''uuid-a'' = Inr isuA"
    and h5: "OpForget ''uuid-a''
       \<notin> set [OpGet dbDown ''uuid-a'', OpForget ''uuid-b'', OpGet dbTwoDevices ''uuid-a'']"
    by (simp_all add: initWorld_def dbTwoDevices_def)
  note t = resident_entry_served_without_store_call
    [of initWorld "''uuid-a''" dbTwoDevices condA
      "[OpGet dbDown ''uuid-a'', OpForget ''uuid-b'', OpGet dbTwoDevices ''uuid-a'']" isuA]
  note c1 = mp [OF conjunct1 [OF t], OF conjI [OF h1 conjI [OF h2 h5]]]
  note c2 = mp [OF conjunct2 [OF t], OF conjI [OF h3 conjI [OF h4 h5]]]
  show ?thesis by (intro conjI h1 h2 h3 h4 h5 c1 c2)
qed

section \<open>Properties of the trend snapshot\<close>

subsection \<open>The cache during a recompute\<close>

lemma loaded_from_refl: "loaded_from db w w"
  by (simp add: loaded_from_def)

lemma loaded_from_trans: "loaded_from db w w1 \<Longrightarrow> loaded_from db w1 w2 \<Longrightarrow> loaded_from db w w2"
  unfolding loaded_from_def by metis

lemma loaded_from_emit: "loaded_from db w w1 \<Longrightarrow> loaded_from db w (emit ev w1)"
  by (simp add: loaded_from_def)

lemma loaded_from_emit_left: "loaded_from db w w1 \<Longrightarrow> loaded_from db (emit ev w) w1"
  by (simp add: loaded_from_def)

lemma IsuConditionCache_Get_loaded_from:
  assumes "IsuConditionCache_Get db k w = (r, w1)"
  shows "loaded_from db w w1"
proof (cases "isuConditionCache w k")
  case (Some v)
  with assms have "w1 = w" by (simp add: IsuConditionCache_Get_def)
  then show ?thesis by (simp add: loaded_from_refl)
next
  case None
  show ?thesis
  proof (cases "getIsuCondition db k")
    case (Inl e)
    with assms None have "isuConditionCache w1 = isuConditionCache w"
      by (auto simp add: IsuConditionCache_Get_def Let_def split: if_splits)
    then show ?thesis by (simp add: loaded_from_def)
  next
    case (Inr v)
    with assms None have "isuConditionCache w1 = (isuConditionCache w)(k \<mapsto> v)"
      by (auto simp add: IsuConditionCache_Get_def Let_def)
    with None Inr show ?thesis by (auto simp add: loaded_from_def)
  qed
qed

lemma calculateTrend_isuList_loaded_from:
  "calculateTrend_isuList db isuList bs w = (r, w1) \<Longrightarrow> loaded_from db w w1"
proof (induction isuList arbitrary: bs w r w1)
  case Nil
  then show ?case by (simp add: loaded_from_refl)
next
  case (Cons isu rest)
  obtain info warning critical where bs: "bs = (info, warning, critical)"
    by (cases bs) auto
  obtain g w0 where g: "IsuConditionCache_Get db (Isu.JIAIsuUUID isu) w = (g, w0)" by force
  note l0 = IsuConditionCache_Get_loaded_from [OF g]
  have "loaded_from db w0 w1"
    using Cons.prems Cons.IH unfolding bs
    by (auto simp add: g Let_def loaded_from_refl split: sum.splits if_splits
        intro: loaded_from_emit)
  with l0 show ?case by (rule loaded_from_trans)
qed

lemma calculateTrend_characterList_loaded_from:
  "calculateTrend_characterList S db cs res w = (r, w1) \<Longrightarrow> loaded_from db w w1"
proof (induction cs arbitrary: res w r w1)
  case Nil
  then show ?case by (simp add: loaded_from_refl)
next
  case (Cons c rest)
  let ?w0 = "emit (StoreSelectIsuByCharacter (Isu.Character c)) w"
  show ?case
  proof (cases "selectIsuByCharacter db (Isu.Character c)")
    case (Inl err)
    with Cons.prems show ?thesis
      by (auto simp add: Let_def loaded_from_def)
  next
    case (Inr isuList)
    obtain b w2 where b: "calculateTrend_isuList db isuList ([], [], []) ?w0 = (b, w2)" by force
    from calculateTrend_isuList_loaded_from [OF b] have l2: "loaded_from db w w2"
      by (simp add: loaded_from_def)
    show ?thesis
    proof (cases b)
      case None
      with Cons.prems Inr b l2 show ?thesis by (simp add: Let_def)
    next
      case (Some t)
      with Cons.prems Inr b obtain res' where
        "calculateTrend_characterList S db rest res' w2 = (r, w1)"
        by (auto simp add: Let_def split: prod.splits)
      from Cons.IH [OF this] l2 show ?thesis by (rule loaded_from_trans [rotated])
    qed
  qed
qed

lemma loaded_from_kept:
  "loaded_from db w w1 \<Longrightarrow> isuConditionCache w k = Some v \<Longrightarrow> isuConditionCache w1 k = Some v"
  unfolding loaded_from_def by (metis option.distinct(1))



lemma Get_fails_emit [simp]: "Get_fails db (emit ev w) = Get_fails db w"
  by (simp add: Get_fails_def fun_eq_iff)

lemma character_fails_emit [simp]: "character_fails db (emit ev w) = character_fails db w"
  by (simp add: character_fails_def fun_eq_iff split: sum.splits)






subsection \<open>Sorted buckets\<close>

lemma sort_Slice_sorted:
  "sort_Slice_sorts S \<Longrightarrow> sortedByTimestampDesc (S byTimestampDesc xs)"
  unfolding sort_Slice_sorts_def sortedByTimestampDesc_def byTimestampDesc_def
  by (simp add: not_less)

lemma sort_Slice_Nil: "sort_Slice_sorts S \<Longrightarrow> S byTimestampDesc [] = []"
  unfolding sort_Slice_sorts_def by (metis mset_zero_iff)

lemma sort_Slice_two:
  assumes "sort_Slice_sorts S" and "TrendCondition.Timestamp a < TrendCondition.Timestamp b"
  shows "S byTimestampDesc [a, b] = [b, a]" and "S byTimestampDesc [b, a] = [b, a]"
proof -
  have two: "ys = [b, a]"
    if m: "mset ys = {#a, b#}" and s: "sorted_wrt (\<lambda>x y. \<not> byTimestampDesc y x) ys" for ys
  proof -
    from m have "mset ys = mset [a, b]" by simp
    from mset_eq_length [OF this] have "length ys = 2" by simp
    then obtain x y where ys: "ys = [x, y]"
      by (metis (no_types) length_0_conv length_Suc_conv numeral_2_eq_2)
    with m have "(x = a \<and> y = b) \<or> (x = b \<and> y = a)"
      by (auto simp add: add_eq_conv_ex)
    moreover from s ys have "\<not> byTimestampDesc y x" by simp
    ultimately show ?thesis using assms(2) ys by (auto simp add: byTimestampDesc_def)
  qed
  from assms(1) show "S byTimestampDesc [a, b] = [b, a]"
    unfolding sort_Slice_sorts_def by (intro two) auto
  from assms(1) show "S byTimestampDesc [b, a] = [b, a]"
    unfolding sort_Slice_sorts_def by (intro two) auto
qed

lemma calculateTrend_characterList_sorted:
  assumes "sort_Slice_sorts S"
  shows "calculateTrend_characterList S db cs res w = (Some out, w') \<Longrightarrow>
         \<forall>r\<in>set res. bucketsSorted r \<Longrightarrow> \<forall>r\<in>set out. bucketsSorted r"
proof (induction cs arbitrary: res w)
  case Nil
  then show ?case by simp
next
  case (Cons c rest)
  let ?w0 = "emit (StoreSelectIsuByCharacter (Isu.Character c)) w"
  from Cons.prems(1) obtain isuList where
    sel: "selectIsuByCharacter db (Isu.Character c) = Inr isuList"
    by (cases "selectIsuByCharacter db (Isu.Character c)") (auto simp add: Let_def)
  obtain b w2 where b: "calculateTrend_isuList db isuList ([], [], []) ?w0 = (b, w2)" by force
  from Cons.prems(1) sel b obtain info warning critical where
    t: "b = Some (info, warning, critical)"
    by (cases b) (auto simp add: Let_def)
  let ?r = "\<lparr>TrendResponse.Character = Isu.Character c,
             Info = S byTimestampDesc info,
             Warning = S byTimestampDesc warning,
             Critical = S byTimestampDesc critical\<rparr>"
  from Cons.prems(1) sel b t have
    run: "calculateTrend_characterList S db rest (res @ [?r]) w2 = (Some out, w')"
    by (simp add: Let_def)
  have "bucketsSorted ?r"
    using assms by (simp add: bucketsSorted_def sort_Slice_sorted)
  with Cons.prems(2) have "\<forall>r\<in>set (res @ [?r]). bucketsSorted r" by auto
  from Cons.IH [OF run this] show ?case .
qed

lemma calculateTrend_sorted:
  assumes "sort_Slice_sorts S" and "calculateTrend S db w = (Some out, w')"
  shows "\<forall>r\<in>set out. bucketsSorted r"
proof -
  from assms(2) obtain cs where
    "calculateTrend_characterList S db cs [] (emit StoreSelectCharacters w) = (Some out, w')"
    by (cases "selectCharacters db") (auto simp add: calculateTrend_def Let_def)
  from calculateTrend_characterList_sorted [OF assms(1) this] show ?thesis by simp
qed

lemma insertLess_mset: "mset (insertLess f x xs) = add_mset x (mset xs)"
  by (induction xs) auto

lemma fold_insertLess_mset: "mset (fold (insertLess f) xs acc) = mset xs + mset acc"
  by (induction xs arbitrary: acc) (auto simp add: insertLess_mset)

lemma insertLess_set: "set (insertLess f x xs) = insert x (set xs)"
  by (induction xs) auto

lemma insertLess_sorted:
  "sorted_wrt (\<lambda>a b. \<not> byTimestampDesc b a) xs \<Longrightarrow>
   sorted_wrt (\<lambda>a b. \<not> byTimestampDesc b a) (insertLess byTimestampDesc x xs)"
  by (induction xs) (auto simp add: insertLess_set byTimestampDesc_def)

lemma fold_insertLess_sorted:
  "sorted_wrt (\<lambda>a b. \<not> byTimestampDesc b a) acc \<Longrightarrow>
   sorted_wrt (\<lambda>a b. \<not> byTimestampDesc b a) (fold (insertLess byTimestampDesc) xs acc)"
  by (induction xs arbitrary: acc) (auto simp add: insertLess_sorted)

lemma insertionSort_sorts: "sort_Slice_sorts insertionSort"
  by (simp add: sort_Slice_sorts_def insertionSort_def fold_insertLess_mset
      fold_insertLess_sorted)

subsection \<open>Devices with an unknown level\<close>

lemma IsuConditionCache_Get_same_rows:
  "getIsuCondition db' = getIsuCondition db \<Longrightarrow>
   IsuConditionCache_Get db' k w = IsuConditionCache_Get db k w"
  by (simp add: IsuConditionCache_Get_def split: option.splits)

lemma calculateTrend_isuList_same_rows:
  "getIsuCondition db' = getIsuCondition db \<Longrightarrow>
   calculateTrend_isuList db' isuList bs w = calculateTrend_isuList db isuList bs w"
proof (induction isuList arbitrary: bs w)
  case Nil
  then show ?case by simp
next
  case (Cons isu rest)
  obtain info warning critical where bs: "bs = (info, warning, critical)"
    by (cases bs) auto
  show ?case
    unfolding bs
    by (simp add: IsuConditionCache_Get_same_rows [OF Cons.prems] Cons.IH [OF Cons.prems]
        Let_def split: prod.splits sum.splits)
qed

lemma calculateTrend_isuList_unknown_level:
  assumes "isuConditionCache w (Isu.JIAIsuUUID isu) = Some cond"
    and "\<not> knownLevel (IsuCondition.Level cond)"
  shows "calculateTrend_isuList db (isu # rest) bs w = calculateTrend_isuList db rest bs w"
proof -
  obtain info warning critical where bs: "bs = (info, warning, critical)"
    by (cases bs) auto
  from assms(2) show ?thesis
    unfolding bs
    by (simp add: IsuConditionCache_Get_hit [OF assms(1)] knownLevel_def Let_def)
qed

lemma calculateTrend_isuList_drop:
  assumes "isuConditionCache w (Isu.JIAIsuUUID isu) = Some cond"
    and "\<not> knownLevel (IsuCondition.Level cond)"
  shows "calculateTrend_isuList db (xs @ isu # ys) bs w = calculateTrend_isuList db (xs @ ys) bs w"
  using assms(1)
proof (induction xs arbitrary: bs w)
  case Nil
  from calculateTrend_isuList_unknown_level [OF Nil assms(2)] show ?case by simp
next
  case (Cons x xs)
  obtain info warning critical where bs: "bs = (info, warning, critical)"
    by (cases bs) auto
  obtain g w0 where g: "IsuConditionCache_Get db (Isu.JIAIsuUUID x) w = (g, w0)" by force
  from loaded_from_kept [OF IsuConditionCache_Get_loaded_from [OF g] Cons.prems]
  have "isuConditionCache w0 (Isu.JIAIsuUUID isu) = Some cond" .
  from Cons.IH [OF this] show ?case
    unfolding bs by (simp add: g Let_def split: sum.splits)
qed

lemma calculateTrend_characterList_drop:
  assumes sel: "selectIsuByCharacter db c = Inr (xs @ isu # ys)"
    and lvl: "\<not> knownLevel (IsuCondition.Level cond)"
    and rows: "getIsuCondition db' = getIsuCondition db"
    and sel': "\<And>a. selectIsuByCharacter db' a
                   = (if a = c then Inr (xs @ ys) else selectIsuByCharacter db a)"
  shows "isuConditionCache w (Isu.JIAIsuUUID isu) = Some cond \<Longrightarrow>
         calculateTrend_characterList S db' cs res w
         = calculateTrend_characterList S db cs res w"
proof (induction cs arbitrary: res w)
  case Nil
  then show ?case by simp
next
  case (Cons ch rest)
  let ?w0 = "emit (StoreSelectIsuByCharacter (Isu.Character ch)) w"
  have c0: "isuConditionCache ?w0 (Isu.JIAIsuUUID isu) = Some cond"
    using Cons.prems by simp
  show ?case
  proof (cases "selectIsuByCharacter db (Isu.Character ch)")
    case (Inl err)
    with sel have "Isu.Character ch \<noteq> c" by auto
    with Inl sel' [of "Isu.Character ch"] show ?thesis by (simp add: Let_def)
  next
    case (Inr isuList)
    have "\<exists>l. selectIsuByCharacter db' (Isu.Character ch) = Inr l
             \<and> calculateTrend_isuList db' l ([], [], []) ?w0
               = calculateTrend_isuList db isuList ([], [], []) ?w0"
    proof (cases "Isu.Character ch = c")
      case True
      with sel Inr have "isuList = xs @ isu # ys" by simp
      with True calculateTrend_isuList_drop [OF c0 lvl, of db xs ys "([], [], [])"]
        sel' [of "Isu.Character ch"]
      show ?thesis
        by (simp add: calculateTrend_isuList_same_rows [OF rows])
    next
      case False
      with Inr sel' [of "Isu.Character ch"] show ?thesis
        by (simp add: calculateTrend_isuList_same_rows [OF rows])
    qed
    then obtain l where l: "selectIsuByCharacter db' (Isu.Character ch) = Inr l"
      and eq: "calculateTrend_isuList db' l ([], [], []) ?w0
               = calculateTrend_isuList db isuList ([], [], []) ?w0"
      by blast
    obtain b w2 where b: "calculateTrend_isuList db isuList ([], [], []) ?w0 = (b, w2)" by force
    from loaded_from_kept [OF calculateTrend_isuList_loaded_from [OF b] c0]
    have c2: "isuConditionCache w2 (Isu.JIAIsuUUID isu) = Some cond" .
    show ?thesis
    proof (cases b)
      case None
      with Inr b l eq show ?thesis by (simp add: Let_def)
    next
      case (Some t)
      obtain info warning critical where t: "t = (info, warning, critical)" by (cases t) auto
      from Inr b l eq Some t Cons.IH [OF c2] show ?thesis
        by (simp add: Let_def)
    qed
  qed
qed

subsection \<open>The events of a recompute\<close>





subsection \<open>The claims on the trend snapshot\<close>




text \<open>
  Claim C9. With any sorting function that keeps the promise of \<^verbatim>\<open>sort.Slice\<close>: after a
  recompute in which the character has the devices A and B and their cached latest
  conditions are critical with the timestamps 10 and 20, the published snapshot holds
  for that character the critical bucket B, A (and empty info and warning buckets); and
  in every snapshot that a recompute publishes, every info, warning and critical bucket
  is sorted by descending timestamp.
\<close>

theorem trend_buckets_descending:
  assumes "sort_Slice_sorts S"
  shows "(selectCharacters db = Inr [character]
          \<and> (selectIsuByCharacter db (Isu.Character character) = Inr [devA, devB]
             \<or> selectIsuByCharacter db (Isu.Character character) = Inr [devB, devA])
          \<and> isuConditionCache w (Isu.JIAIsuUUID devA) = Some latestA
          \<and> isuConditionCache w (Isu.JIAIsuUUID devB) = Some latestB
          \<and> IsuCondition.Level latestA = ''critical'' \<and> IsuCondition.Timestamp latestA = 10
          \<and> IsuCondition.Level latestB = ''critical'' \<and> IsuCondition.Timestamp latestB = 20
          \<longrightarrow> TrendCache_Get (calculateTrendScheduled_tick S db w)
                = Some [\<lparr>TrendResponse.Character = Isu.Character character,
                         Info = [], Warning = [],
                         Critical = [\<lparr>TrendCondition.ID = Isu.ID devB, TrendCondition.Timestamp = 20\<rparr>,
                                     \<lparr>TrendCondition.ID = Isu.ID devA, TrendCondition.Timestamp = 10\<rparr>]\<rparr>])
         \<and> (\<forall>res. TrendCache_Get (calculateTrendScheduled_tick S db w) = Some res
                \<longrightarrow> (\<forall>r\<in>set res. sortedByTimestampDesc (Info r)
                                 \<and> sortedByTimestampDesc (Warning r)
                                 \<and> sortedByTimestampDesc (Critical r)))"
proof (intro conjI impI allI)
  fix res
  assume "TrendCache_Get (calculateTrendScheduled_tick S db w) = Some res"
  then obtain w' where "calculateTrend S db w = (Some res, w')"
    by (auto simp add: calculateTrendScheduled_tick_def TrendCache_Get_def TrendCache_Set_def
        split: prod.splits)
  from calculateTrend_sorted [OF assms this]
  show "\<forall>r\<in>set res. sortedByTimestampDesc (Info r) \<and> sortedByTimestampDesc (Warning r)
                    \<and> sortedByTimestampDesc (Critical r)"
    by (simp add: bucketsSorted_def)
next
  let ?tA = "\<lparr>TrendCondition.ID = Isu.ID devA, TrendCondition.Timestamp = 10\<rparr>"
  let ?tB = "\<lparr>TrendCondition.ID = Isu.ID devB, TrendCondition.Timestamp = 20\<rparr>"
  assume h: "selectCharacters db = Inr [character]
          \<and> (selectIsuByCharacter db (Isu.Character character) = Inr [devA, devB]
             \<or> selectIsuByCharacter db (Isu.Character character) = Inr [devB, devA])
          \<and> isuConditionCache w (Isu.JIAIsuUUID devA) = Some latestA
          \<and> isuConditionCache w (Isu.JIAIsuUUID devB) = Some latestB
          \<and> IsuCondition.Level latestA = ''critical'' \<and> IsuCondition.Timestamp latestA = 10
          \<and> IsuCondition.Level latestB = ''critical'' \<and> IsuCondition.Timestamp latestB = 20"
  have lt: "TrendCondition.Timestamp ?tA < TrendCondition.Timestamp ?tB" by simp
  note two = sort_Slice_two [OF assms lt] and nil = sort_Slice_Nil [OF assms]
  from h show "TrendCache_Get (calculateTrendScheduled_tick S db w)
                = Some [\<lparr>TrendResponse.Character = Isu.Character character,
                         Info = [], Warning = [], Critical = [?tB, ?tA]\<rparr>]"
    by (auto simp add: calculateTrendScheduled_tick_def TrendCache_Get_def TrendCache_Set_def
        calculateTrend_def Let_def IsuConditionCache_Get_def two nil)
qed

theorem trend_buckets_descending_witness:
  "sort_Slice_sorts insertionSort
   \<and> selectCharacters dbTwoDevices = Inr [exampleIsu 0 [] ''X'']
   \<and> selectIsuByCharacter dbTwoDevices (Isu.Character (exampleIsu 0 [] ''X''))
       = Inr [isuA, isuB]
   \<and> isuConditionCache cachedWorld (Isu.JIAIsuUUID isuA) = Some condA
   \<and> isuConditionCache cachedWorld (Isu.JIAIsuUUID isuB) = Some condB
   \<and> IsuCondition.Level condA = ''critical'' \<and> IsuCondition.Timestamp condA = 10
   \<and> IsuCondition.Level condB = ''critical'' \<and> IsuCondition.Timestamp condB = 20
   \<and> TrendCache_Get (calculateTrendScheduled_tick insertionSort dbTwoDevices cachedWorld)
       = Some snapshotX
   \<and> list_all bucketsSorted snapshotX"
proof -
  have h1: "selectCharacters dbTwoDevices = Inr [exampleIsu 0 [] ''X'']"
    and h2: "selectIsuByCharacter dbTwoDevices (Isu.Character (exampleIsu 0 [] ''X''))
               = Inr [isuA, isuB]"
    and h3: "isuConditionCache cachedWorld (Isu.JIAIsuUUID isuA) = Some condA"
    and h4: "isuConditionCache cachedWorld (Isu.JIAIsuUUID isuB) = Some condB"
    and h5: "IsuCondition.Level condA = ''critical''"
    and h6: "IsuCondition.Timestamp condA = 10"
    and h7: "IsuCondition.Level condB = ''critical''"
    and h8: "IsuCondition.Timestamp condB = 20"
    by (simp_all add: dbTwoDevices_def cachedWorld_def initWorld_def exampleIsu_def isuA_def
        isuB_def condA_def condB_def exampleCondition_def)
  note t = trend_buckets_descending [OF insertionSort_sorts,
      of dbTwoDevices "exampleIsu 0 [] ''X''" isuA isuB cachedWorld condA condB]
  from conjunct1 [OF t] h1 h2 h3 h4 h5 h6 h7 h8 have
    p: "TrendCache_Get (calculateTrendScheduled_tick insertionSort dbTwoDevices cachedWorld)
          = Some snapshotX"
    by (simp add: snapshotX_def exampleIsu_def isuA_def isuB_def)
  from conjunct2 [OF t] p have
    "\<forall>r\<in>set snapshotX. sortedByTimestampDesc (Info r)
                           \<and> sortedByTimestampDesc (Warning r)
                           \<and> sortedByTimestampDesc (Critical r)"
    by blast
  then have s: "list_all bucketsSorted snapshotX"
    by (simp add: list_all_iff bucketsSorted_def)
  show ?thesis by (intro conjI insertionSort_sorts h1 h2 h3 h4 h5 h6 h7 h8 p s)
qed

text \<open>
  Claim C10. A device whose cached latest condition has a level other than \<^verbatim>\<open>info\<close>,
  \<^verbatim>\<open>warning\<close> and \<^verbatim>\<open>critical\<close> leaves no mark on the recompute: the result, the state and
  the log are those of the same recompute with the device taken out of the list of its
  character, and the loop over the device alone returns the three buckets as they were,
  without an error and without a log line.
\<close>

theorem unknown_level_device_dropped:
  assumes "selectIsuByCharacter db c = Inr (xs @ isu # ys)"
    and "isuConditionCache w (Isu.JIAIsuUUID isu) = Some cond"
    and "\<not> knownLevel (IsuCondition.Level cond)"
  shows "calculateTrend S db w
           = calculateTrend S
               (db\<lparr>selectIsuByCharacter := (selectIsuByCharacter db)(c := Inr (xs @ ys))\<rparr>) w
         \<and> calculateTrend_isuList db [isu] bs w = (Some bs, w)"
proof -
  define db' where
    "db' = db\<lparr>selectIsuByCharacter := (selectIsuByCharacter db)(c := Inr (xs @ ys))\<rparr>"
  have rows: "getIsuCondition db' = getIsuCondition db"
    and chars: "selectCharacters db' = selectCharacters db"
    and sel': "\<And>a. selectIsuByCharacter db' a
                   = (if a = c then Inr (xs @ ys) else selectIsuByCharacter db a)"
    by (simp_all add: db'_def)
  have c0: "isuConditionCache (emit StoreSelectCharacters w) (Isu.JIAIsuUUID isu) = Some cond"
    using assms(2) by simp
  have "calculateTrend S db' w = calculateTrend S db w"
    by (cases "selectCharacters db")
      (simp_all add: calculateTrend_def Let_def chars
        calculateTrend_characterList_drop [OF assms(1) assms(3) rows sel' c0])
  moreover have "calculateTrend_isuList db [isu] bs w = (Some bs, w)"
    using calculateTrend_isuList_unknown_level [OF assms(2,3), of db "[]" bs] by simp
  ultimately show ?thesis by (simp add: db'_def)
qed

theorem unknown_level_device_dropped_witness:
  "selectIsuByCharacter dbThreeDevices ''X'' = Inr ([isuA] @ isuC # [isuB])
   \<and> isuConditionCache cachedWorld (Isu.JIAIsuUUID isuC) = Some condC
   \<and> \<not> knownLevel (IsuCondition.Level condC)
   \<and> calculateTrend insertionSort dbThreeDevices cachedWorld
       = calculateTrend insertionSort
           (dbThreeDevices\<lparr>selectIsuByCharacter :=
              (selectIsuByCharacter dbThreeDevices)(''X'' := Inr ([isuA] @ [isuB]))\<rparr>)
           cachedWorld
   \<and> calculateTrend_isuList dbThreeDevices [isuC] ([], [], []) cachedWorld
       = (Some ([], [], []), cachedWorld)"
proof -
  have h1: "selectIsuByCharacter dbThreeDevices ''X'' = Inr ([isuA] @ isuC # [isuB])"
    by (simp add: dbThreeDevices_def)
  have h2: "isuConditionCache cachedWorld (Isu.JIAIsuUUID isuC) = Some condC"
    by (simp add: cachedWorld_def isuC_def exampleIsu_def)
  have h3: "\<not> knownLevel (IsuCondition.Level condC)"
    by (simp add: knownLevel_def condC_def exampleCondition_def)
  from unknown_level_device_dropped [OF h1 h2 h3, of insertionSort "([], [], [])"]
  show ?thesis by (intro conjI h1 h2 h3) simp_all
qed

end
